theory Spec2Isabelle
  imports Complex_Main "HOL-Library.Word"
begin

section \<open>Strings\<close>

text \<open>
  A JavaScript string is modelled as a \<^typ>\<open>string\<close>: the list of its code units,
  so \<open>length\<close> is the \<open>.length\<close> of the source.  A \<^typ>\<open>char\<close> has eight bits, so the
  texts of the model are those whose code units are below 256.  \<open>str_includes\<close> is
  \<open>String.prototype.includes\<close>: the argument occurs as a contiguous slice.
\<close>

fun starts_with :: "string \<Rightarrow> string \<Rightarrow> bool" where
  "starts_with s [] = True"
| "starts_with [] (p # ps) = False"
| "starts_with (c # cs) (p # ps) = (c = p \<and> starts_with cs ps)"

fun str_includes :: "string \<Rightarrow> string \<Rightarrow> bool" where
  "str_includes [] sub = (sub = [])"
| "str_includes (c # cs) sub = (starts_with (c # cs) sub \<or> str_includes cs sub)"

section \<open>Error classifier (\<open>categorizeError\<close> in src/lib/error-handler.ts)\<close>

datatype severity = low | medium | high | critical

text \<open>
  The values of a \<open>Record<string, any>\<close>: the classifier itself stores strings and
  \<open>undefined\<close> (a missing \<open>stack\<close>); whatever the caller put in the context is opaque.
\<close>

datatype 'v jsval = JString string | JUndefined | JOpaque 'v

record 'v ErrorInfo =
  code :: string
  message :: string
  severity :: severity
  context' :: "string \<rightharpoonup> 'v jsval"
  suggestion :: string
  retryable :: bool
  timestamp :: string

text \<open>A thrown \<open>Error\<close>: its \<open>message\<close> and its \<open>stack\<close> (which may be absent).\<close>

datatype js_error = Error (err_message: string) (err_stack: "string option")

definition stack_val :: "js_error \<Rightarrow> 'v jsval" where
  "stack_val e = (case err_stack e of None \<Rightarrow> JUndefined | Some s \<Rightarrow> JString s)"

text \<open>
  \<open>categorizeError\<close> reads the clock once (\<open>new Date().toISOString()\<close>); the reading
  is the first argument.  The ten rules are tried in the order of the source; \<open>mk\<close>
  builds the object literal the rules share.
\<close>

definition mk :: "string \<Rightarrow> js_error \<Rightarrow> (string \<rightharpoonup> 'v jsval) \<Rightarrow> string \<Rightarrow> string \<Rightarrow> severity
    \<Rightarrow> string \<Rightarrow> bool \<Rightarrow> 'v ErrorInfo" where
  "mk ts e ctx c m sev sug r =
     \<lparr> code = c, message = m, severity = sev,
       context' = ctx(''originalError'' \<mapsto> JString (err_message e)),
       suggestion = sug, retryable = r, timestamp = ts \<rparr>"

definition is_network :: "string \<Rightarrow> bool" where
  "is_network m = (str_includes m ''fetch'' \<or> str_includes m ''network'' \<or> str_includes m ''ECONNREFUSED'')"

definition is_rate_limit :: "string \<Rightarrow> bool" where
  "is_rate_limit m = (str_includes m ''rate limit'' \<or> str_includes m ''429'' \<or> str_includes m ''quota'')"

definition is_auth :: "string \<Rightarrow> bool" where
  "is_auth m = (str_includes m ''auth'' \<or> str_includes m ''401'' \<or> str_includes m ''API_KEY'')"

definition is_timeout :: "string \<Rightarrow> bool" where
  "is_timeout m = (str_includes m ''timeout'' \<or> str_includes m ''ETIMEDOUT'')"

definition is_unavailable :: "string \<Rightarrow> bool" where
  "is_unavailable m = (str_includes m ''503'' \<or> str_includes m ''502'' \<or> str_includes m ''504'')"

definition is_content_policy :: "string \<Rightarrow> bool" where
  "is_content_policy m =
     (str_includes m ''content policy'' \<or> str_includes m ''safety'' \<or> str_includes m ''blocked'')"

definition is_validation :: "string \<Rightarrow> bool" where
  "is_validation m = (str_includes m ''validation'' \<or> str_includes m ''invalid'' \<or> str_includes m ''400'')"

definition is_browser :: "string \<Rightarrow> bool" where
  "is_browser m = (str_includes m ''playwright'' \<or> str_includes m ''browser'' \<or> str_includes m ''page'')"

definition is_file_system :: "string \<Rightarrow> bool" where
  "is_file_system m = (str_includes m ''ENOENT'' \<or> str_includes m ''EACCES'' \<or> str_includes m ''file'')"

definition is_internal :: "string \<Rightarrow> bool" where
  "is_internal m = (str_includes m ''500'' \<or> str_includes m ''internal'')"

definition categorizeError :: "string \<Rightarrow> js_error \<Rightarrow> (string \<rightharpoonup> 'v jsval) \<Rightarrow> 'v ErrorInfo" where
  "categorizeError ts e ctx =
    (let m = err_message e in
     if is_network m then
       mk ts e ctx ''NETWORK_ERROR'' ''Network connectivity issue'' medium
         ''Check internet connection and try again'' True
     else if is_rate_limit m then
       mk ts e ctx ''RATE_LIMIT'' ''API rate limit exceeded'' medium
         ''Wait before making more requests or upgrade your API plan'' True
     else if is_auth m then
       mk ts e ctx ''AUTH_ERROR'' ''Authentication failed'' high
         ''Check API keys and credentials'' False
     else if is_timeout m then
       mk ts e ctx ''TIMEOUT'' ''Operation timed out'' medium
         ''Try again with a longer timeout or simpler request'' True
     else if is_unavailable m then
       mk ts e ctx ''SERVICE_UNAVAILABLE'' ''Service temporarily unavailable'' medium
         ''The service is experiencing issues. Try again later'' True
     else if is_content_policy m then
       mk ts e ctx ''CONTENT_POLICY'' ''Content violates service policies'' medium
         ''Modify your content to comply with service policies'' False
     else if is_validation m then
       mk ts e ctx ''VALIDATION_ERROR'' ''Invalid input or parameters'' low
         ''Check your input parameters and try again'' False
     else if is_browser m then
       mk ts e ctx ''BROWSER_ERROR'' ''Browser automation error'' medium
         ''The website may be blocking automated access. Try a different approach'' True
     else if is_file_system m then
       mk ts e ctx ''FILE_SYSTEM_ERROR'' ''File system operation failed'' medium
         ''Check file permissions and disk space'' False
     else if is_internal m then
       mk ts e ctx ''INTERNAL_SERVER_ERROR'' ''Internal server error'' high
         ''This is a server-side issue. Please try again later'' True
     else
       \<lparr> code = ''UNKNOWN_ERROR'',
         message = (if m = [] then ''An unknown error occurred'' else m),
         severity = medium,
         context' = (ctx(''originalError'' \<mapsto> JString m))(''stack'' \<mapsto> stack_val e),
         suggestion = ''Please try again or contact support if the issue persists'',
         retryable = False, timestamp = ts \<rparr>)"

text \<open>No rule of the table applies to the message.\<close>

definition no_rule_matches :: "string \<Rightarrow> bool" where
  "no_rule_matches m =
     (\<not> is_network m \<and> \<not> is_rate_limit m \<and> \<not> is_auth m \<and> \<not> is_timeout m \<and>
      \<not> is_unavailable m \<and> \<not> is_content_policy m \<and> \<not> is_validation m \<and>
      \<not> is_browser m \<and> \<not> is_file_system m \<and> \<not> is_internal m)"

text \<open>The retryable and the non-retryable codes as the spec lists them, and as the source
  spells them.\<close>

definition spec_retryable_codes :: "string set" where
  "spec_retryable_codes = {''NETWORK_ERROR'', ''RATE_LIMIT'', ''TIMEOUT'', ''SERVICE_UNAVAILABLE'',
     ''AUTOMATION_BLOCKED'', ''INTERNAL_ERROR''}"

definition source_retryable_codes :: "string set" where
  "source_retryable_codes = {''NETWORK_ERROR'', ''RATE_LIMIT'', ''TIMEOUT'', ''SERVICE_UNAVAILABLE'',
     ''BROWSER_ERROR'', ''INTERNAL_SERVER_ERROR''}"

definition source_final_codes :: "string set" where
  "source_final_codes = {''AUTH_ERROR'', ''CONTENT_POLICY'', ''VALIDATION_ERROR'',
     ''FILE_SYSTEM_ERROR'', ''UNKNOWN_ERROR''}"

section \<open>Retry controller (\<open>executeWithRetry\<close> in src/lib/error-handler.ts)\<close>

text \<open>
  \<open>maxRetries\<close> is compared with the integer loop counter, so it is an \<^typ>\<open>int\<close>
  (the loop body never runs when it is negative); the delays are JavaScript numbers,
  modelled as real numbers.  \<open>executeWithRetry\<close> takes the configuration in force, that is,
  \<open>retryConfig\<close> overridden by the caller's \<open>customConfig\<close>.
\<close>

record RetryConfig =
  maxRetries :: int
  baseDelay :: real
  maxDelay :: real
  exponentialBackoff :: bool
  retryableErrors :: "string list"

definition retryConfig :: RetryConfig where
  "retryConfig = \<lparr> maxRetries = 3, baseDelay = 1000, maxDelay = 10000, exponentialBackoff = True,
     retryableErrors = [''NETWORK_ERROR'', ''RATE_LIMIT'', ''TIMEOUT'', ''SERVICE_UNAVAILABLE'',
       ''INTERNAL_SERVER_ERROR''] \<rparr>"

text \<open>
  \<open>enhanceError\<close> builds the error that is thrown: its \<open>name\<close> is the code, its message the
  classification's message, its stack the original one, and the classification is attached
  (the source also copies \<open>severity\<close>, \<open>suggestion\<close> and \<open>retryable\<close> out of it).
\<close>

datatype 'v enhanced_error =
  EnhancedError (err_name: string) (enh_message: string) (enh_stack: "string option")
    (errorInfo: "'v ErrorInfo")

definition enhanceError :: "js_error \<Rightarrow> 'v ErrorInfo \<Rightarrow> 'v enhanced_error" where
  "enhanceError originalError info =
     EnhancedError (code info) (message info) (err_stack originalError) info"

text \<open>\<open>Math.random()\<close> is the first argument: a number in \<open>[0, 1)\<close>.\<close>

definition calculateDelay :: "real \<Rightarrow> nat \<Rightarrow> RetryConfig \<Rightarrow> real" where
  "calculateDelay rand attempt config =
     (if \<not> exponentialBackoff config then baseDelay config
      else
        let exponentialDelay = baseDelay config * 2 ^ attempt;
            jitter = rand * 0.1 * exponentialDelay
        in min (exponentialDelay + jitter) (maxDelay config))"

text \<open>\<open>logError\<close> appends to the process-wide log and keeps its last 100 entries.\<close>

definition logError :: "'v ErrorInfo list \<Rightarrow> 'v ErrorInfo \<Rightarrow> 'v ErrorInfo list" where
  "logError elog info =
     (let l = elog @ [info] in if length l > 100 then drop (length l - 100) l else l)"

text \<open>
  How a call of \<open>executeWithRetry\<close> ends: the operation's value, the enhanced error thrown
  inside the loop, or \<open>throw lastError\<close> after it (\<open>null\<close> when no attempt was made).
\<close>

datatype ('a, 'v) outcome = Returned 'a | Thrown "'v enhanced_error" | ThrownLast "js_error option"

text \<open>
  What one call does besides ending: the number of times the operation was called, the
  delays slept (in order), and the error log.
\<close>

record 'v retry_state =
  attempts :: nat
  delays :: "real list"
  errorLog :: "'v ErrorInfo list"

text \<open>
  The world of one call: \<open>operation i\<close> is what the \<open>i\<close>-th call of the operation does
  (\<open>Inl\<close> the error it throws), \<open>clock i\<close> the time read when that error is classified,
  \<open>random i\<close> the value \<open>Math.random()\<close> returns when the delay after it is computed.
\<close>

record ('a, 'v) retry_env =
  operation :: "nat \<Rightarrow> js_error + 'a"
  clock :: "nat \<Rightarrow> string"
  random :: "nat \<Rightarrow> real"
  context_arg :: "string \<rightharpoonup> 'v jsval"

function retry_loop :: "RetryConfig \<Rightarrow> ('a, 'v) retry_env \<Rightarrow> nat \<Rightarrow> js_error option
    \<Rightarrow> 'v retry_state \<Rightarrow> ('a, 'v) outcome \<times> 'v retry_state" where
  "retry_loop config env attempt lastError st =
    (if int attempt \<le> maxRetries config then
       (case operation env attempt of
          Inr v \<Rightarrow> (Returned v, st\<lparr>attempts := Suc (attempts st)\<rparr>)
        | Inl error \<Rightarrow>
            let errorInfo = categorizeError (clock env attempt) error (context_arg env);
                st1 = st\<lparr>attempts := Suc (attempts st),
                         errorLog := logError (errorLog st) errorInfo\<rparr>
            in if int attempt = maxRetries config \<or> \<not> retryable errorInfo
               then (Thrown (enhanceError error errorInfo), st1)
               else
                 let delay = calculateDelay (random env attempt) attempt config
                 in retry_loop config env (Suc attempt) (Some error)
                      (st1\<lparr>delays := delays st1 @ [delay]\<rparr>))
     else (ThrownLast lastError, st))"
  by pat_completeness auto
termination
  by (relation "measure (\<lambda>(config, env, attempt, lastError, st).
        nat (maxRetries config + 1 - int attempt))") auto

definition executeWithRetry :: "RetryConfig \<Rightarrow> ('a, 'v) retry_env \<Rightarrow> 'v ErrorInfo list
    \<Rightarrow> ('a, 'v) outcome \<times> 'v retry_state" where
  "executeWithRetry config env elog =
     retry_loop config env 0 None \<lparr> attempts = 0, delays = [], errorLog = elog \<rparr>"

text \<open>The \<open>i\<close>-th call of the operation throws an error whose classification is retryable.\<close>

definition fails_retryable :: "('a, 'v) retry_env \<Rightarrow> nat \<Rightarrow> bool" where
  "fails_retryable env i =
     (case operation env i of
        Inl error \<Rightarrow> retryable (categorizeError (clock env i) error (context_arg env))
      | Inr v \<Rightarrow> False)"

definition fails_final :: "('a, 'v) retry_env \<Rightarrow> nat \<Rightarrow> bool" where
  "fails_final env i =
     (case operation env i of
        Inl error \<Rightarrow> \<not> retryable (categorizeError (clock env i) error (context_arg env))
      | Inr v \<Rightarrow> False)"

definition is_thrown :: "('a, 'v) outcome \<Rightarrow> bool" where
  "is_thrown out = (case out of Returned v \<Rightarrow> False | _ \<Rightarrow> True)"

text \<open>Three concrete worlds: the operation succeeds on its third call after two network
  errors; it always fails with a network error; it fails with a validation error.\<close>

definition demo_env :: "(nat, unit) retry_env" where
  "demo_env = \<lparr> operation = (\<lambda>i. if i < 2 then Inl (Error ''network down'' None) else Inr 7),
     clock = (\<lambda>i. ''2024-01-01T00:00:00.000Z''), random = (\<lambda>i. 1 / 2),
     context_arg = Map.empty \<rparr>"

definition demo_env_down :: "(nat, unit) retry_env" where
  "demo_env_down = \<lparr> operation = (\<lambda>i. Inl (Error ''network down'' None)),
     clock = (\<lambda>i. ''2024-01-01T00:00:00.000Z''), random = (\<lambda>i. 1 / 2),
     context_arg = Map.empty \<rparr>"

definition demo_env_invalid :: "(nat, unit) retry_env" where
  "demo_env_invalid = \<lparr> operation = (\<lambda>i. Inl (Error ''invalid voice'' None)),
     clock = (\<lambda>i. ''2024-01-01T00:00:00.000Z''), random = (\<lambda>i. 1 / 2),
     context_arg = Map.empty \<rparr>"

section \<open>Chunk planner (\<open>splitScript\<close> of class EnhancedTTSEngine in
  src/lib/robust-scraper.ts, \<open>splitEnhancedScript\<close> of class RealisticVoiceMethods)\<close>

text \<open>
  The sentence terminators of both regular expressions, and the white space that
  \<open>trim\<close> removes (among the code units below 256: tab, line feed, vertical tab, form
  feed, carriage return, space and no-break space).
\<close>

definition is_term :: "char \<Rightarrow> bool" where
  "is_term c = (c = CHR ''.'' \<or> c = CHR ''!'' \<or> c = CHR ''?'')"

definition is_space :: "char \<Rightarrow> bool" where
  "is_space c = (of_char c \<in> {9, 10, 11, 12, 13, 32, 160 :: nat})"

definition trim :: "string \<Rightarrow> string" where
  "trim s = rev (dropWhile is_space (rev (dropWhile is_space s)))"

text \<open>
  \<open>script.match(/[^\.!?]+[\.!?]+/g)\<close>: each match is a longest run of non-terminators
  followed by a longest run of terminators.  Terminators before the first match are
  skipped, and a final run of non-terminators that no terminator follows is not matched.
  The result is empty where \<open>match\<close> returns \<open>null\<close>.
\<close>

function match_sentences :: "string \<Rightarrow> string list" where
  "match_sentences s =
     (let s1 = dropWhile is_term s;
          rest = dropWhile (\<lambda>c. \<not> is_term c) s1
      in if rest = [] then []
         else (takeWhile (\<lambda>c. \<not> is_term c) s1 @ takeWhile is_term rest)
                # match_sentences (dropWhile is_term rest))"
  by pat_completeness auto
termination
proof (relation "measure length")
  fix s s1 rest
  assume "s1 = dropWhile is_term s" and "rest = dropWhile (\<lambda>c. \<not> is_term c) s1" and "rest \<noteq> []"
  then have "is_term (hd rest)" and "length rest \<le> length s"
    using hd_dropWhile [of "\<lambda>c. \<not> is_term c" s1]
      length_dropWhile_le [of "\<lambda>c. \<not> is_term c" s1] length_dropWhile_le [of is_term s]
    by auto
  with \<open>rest \<noteq> []\<close> have "length (dropWhile is_term rest) < length s"
    by (cases rest) (auto simp: le_imp_less_Suc intro: le_less_trans [OF length_dropWhile_le])
  then show "(dropWhile is_term rest, s) \<in> measure length" by simp
qed simp

text \<open>The loop of \<open>splitScript\<close>: the state is \<open>chunks\<close> and \<open>currentChunk\<close>.\<close>

fun splitScript_loop :: "int \<Rightarrow> string list \<Rightarrow> string list \<times> string \<Rightarrow> string list \<times> string" where
  "splitScript_loop maxChunkLength [] (chunks, currentChunk) = (chunks, currentChunk)"
| "splitScript_loop maxChunkLength (sentence # sentences) (chunks, currentChunk) =
     (if int (length (currentChunk @ sentence)) > maxChunkLength \<and> currentChunk \<noteq> []
      then splitScript_loop maxChunkLength sentences (chunks @ [trim currentChunk], sentence)
      else splitScript_loop maxChunkLength sentences (chunks, currentChunk @ '' '' @ sentence))"

definition splitScript :: "string \<Rightarrow> int \<Rightarrow> string list" where
  "splitScript script maxChunkLength =
     (let sentences = (if match_sentences script = [] then [script] else match_sentences script);
          (chunks, currentChunk) = splitScript_loop maxChunkLength sentences ([], []);
          chunks' = (if trim currentChunk \<noteq> [] then chunks @ [trim currentChunk] else chunks)
      in if chunks' \<noteq> [] then chunks' else [script])"

text \<open>
  \<open>script.split(/[.!?]+/)\<close>: the pieces between the runs of terminators; the terminators
  themselves are not part of any piece, and the piece after a final terminator is empty.
\<close>

function split_terms :: "string \<Rightarrow> string list" where
  "split_terms s =
     (let rest = dropWhile (\<lambda>c. \<not> is_term c) s
      in if rest = [] then [takeWhile (\<lambda>c. \<not> is_term c) s]
         else takeWhile (\<lambda>c. \<not> is_term c) s # split_terms (dropWhile is_term rest))"
  by pat_completeness auto
termination
proof (relation "measure length")
  fix s rest
  assume "rest = dropWhile (\<lambda>c. \<not> is_term c) s" and "rest \<noteq> []"
  then have "is_term (hd rest)" and "length rest \<le> length s"
    using hd_dropWhile [of "\<lambda>c. \<not> is_term c" s] length_dropWhile_le [of "\<lambda>c. \<not> is_term c" s]
    by auto
  with \<open>rest \<noteq> []\<close> have "length (dropWhile is_term rest) < length s"
    by (cases rest) (auto simp: le_imp_less_Suc intro: le_less_trans [OF length_dropWhile_le])
  then show "(dropWhile is_term rest, s) \<in> measure length" by simp
qed simp

fun splitEnhancedScript_loop :: "string list \<Rightarrow> string list \<times> string \<Rightarrow> string list \<times> string" where
  "splitEnhancedScript_loop [] (chunks, currentChunk) = (chunks, currentChunk)"
| "splitEnhancedScript_loop (sentence # sentences) (chunks, currentChunk) =
     (if trim sentence \<noteq> [] then
        (if length currentChunk + length sentence > 500 then
           splitEnhancedScript_loop sentences
             (if currentChunk \<noteq> [] then chunks @ [trim currentChunk] else chunks, sentence)
         else
           splitEnhancedScript_loop sentences
             (chunks, currentChunk @ (if currentChunk \<noteq> [] then ''. '' else []) @ sentence))
      else splitEnhancedScript_loop sentences (chunks, currentChunk))"

definition splitEnhancedScript :: "string \<Rightarrow> string list" where
  "splitEnhancedScript script =
     (let (chunks, currentChunk) = splitEnhancedScript_loop (split_terms script) ([], [])
      in if currentChunk \<noteq> [] then chunks @ [trim currentChunk] else chunks)"

section \<open>Synthesis pipeline (classes EnhancedTTSEngine and RealisticVoiceMethods)\<close>

type_synonym buffer = "8 word list"

text \<open>
  \<open>generateNaturalPause\<close>: 16-bit silence at 44100 samples per second, 1500 ms when the
  previous chunk contains an exclamation mark and 800 ms otherwise.
\<close>

definition generateNaturalPause :: "string \<Rightarrow> buffer" where
  "generateNaturalPause previousChunk =
     (let pauseDuration = (if str_includes previousChunk ''!'' then 1500 else 800 :: real);
          sampleRate = (44100 :: real);
          silenceSamples = nat \<lfloor>sampleRate * (pauseDuration / 1000)\<rfloor>
      in replicate (silenceSamples * 2) 0)"

text \<open>
  The numeric options arrive from a JSON body and go through \<open>Math.min\<close> and \<open>Math.max\<close>,
  which coerce their arguments to numbers: a value is a real number or \<open>NaN\<close>, and both
  functions answer \<open>NaN\<close> as soon as one argument is \<open>NaN\<close>.
\<close>

datatype jsnum = Num real | NaN

fun Math_min :: "jsnum \<Rightarrow> jsnum \<Rightarrow> jsnum" where
  "Math_min (Num x) (Num y) = Num (min x y)"
| "Math_min a b = NaN"

fun Math_max :: "jsnum \<Rightarrow> jsnum \<Rightarrow> jsnum" where
  "Math_max (Num x) (Num y) = Num (max x y)"
| "Math_max a b = NaN"

record TTSOptions =
  voice :: "string option"
  speed :: "jsnum option"
  pitch :: "jsnum option"
  volume :: "jsnum option"
  provider :: "string option"
  voiceStability :: "jsnum option"
  voiceSimilarity :: "jsnum option"
  style :: "string option"
  emotion :: "string option"
  language :: "string option"
  enhanceAudio :: "bool option"
  addMusic :: "bool option"
  musicVolume :: "jsnum option"

text \<open>
  The result object.  The fields that only report time (\<open>duration\<close>, \<open>generatedAt\<close>,
  \<open>processingTime\<close>) are left out; \<open>audioUrl\<close> names the file written, whose content the
  model returns next to the result.
\<close>

record TTSMetadata =
  chunks :: "nat option"
  audioQuality :: string
  realistic :: "bool option"
  voiceModulation :: "bool option"
  fallbackUsed :: "bool option"
  originalProvider :: "string option"

record TTSResult =
  success :: bool
  format :: string
  size' :: "nat option"
  provider' :: string
  voice' :: "string option"
  enhancedAudio :: "bool option"
  error :: "string option"
  metadata :: TTSMetadata

text \<open>
  The world of the engine: whether the ElevenLabs client was initialised, the two Azure
  environment variables, whether the ffmpeg binary was found, and what the external calls
  do.  A speech request is identified by the index of the chunk and its text (within one
  call of \<open>generateAudio\<close> the voice and the voice settings are functions of these and of
  the options); \<open>Inl\<close> is the message of the error it throws.  \<open>run_filters\<close> is the body
  of the \<open>try\<close> block of \<open>enhanceAudioForRealism\<close> (write the input, run ffmpeg, read the
  output): \<open>None\<close> when any of it throws.  The text rewriting of \<open>enhanceScriptForRealism\<close> is a parameter: nothing
  below depends on what it rewrites.  Writing the final file and removing the temporary
  files are taken to succeed.
\<close>

record tts_env =
  elevenlabs :: bool
  el_generate :: "nat \<Rightarrow> string \<Rightarrow> string + buffer"
  AZURE_SPEECH_KEY :: "string option"
  AZURE_SPEECH_REGION :: "string option"
  azure_fetch :: "nat \<Rightarrow> string \<Rightarrow> string + buffer"
  ffmpeg :: bool
  run_filters :: "buffer \<Rightarrow> buffer option"
  enhanceScriptForRealism :: "string \<Rightarrow> string"

definition truthy :: "string option \<Rightarrow> bool" where
  "truthy v = (case v of None \<Rightarrow> False | Some s \<Rightarrow> s \<noteq> [])"

definition enhanceAudioForRealism :: "tts_env \<Rightarrow> buffer \<Rightarrow> buffer" where
  "enhanceAudioForRealism env audioBuffer =
     (if \<not> ffmpeg env then audioBuffer
      else case run_filters env audioBuffer of
             Some enhancedBuffer \<Rightarrow> enhancedBuffer
           | None \<Rightarrow> audioBuffer)"

text \<open>The chunk loop of \<open>generateWithElevenLabs\<close>; the state is \<open>audioBuffers\<close>.\<close>

function elevenlabs_loop :: "tts_env \<Rightarrow> string list \<Rightarrow> nat \<Rightarrow> buffer list \<Rightarrow> string + buffer list" where
  "elevenlabs_loop env enhancedChunks i audioBuffers =
     (if i < length enhancedChunks then
        (let chunk = enhancedChunks ! i in
         case el_generate env i chunk of
           Inl err \<Rightarrow> Inl err
         | Inr audioBuffer \<Rightarrow>
             elevenlabs_loop env enhancedChunks (Suc i)
               (if int i < int (length enhancedChunks) - 1
                then audioBuffers @ [audioBuffer] @ [generateNaturalPause chunk]
                else audioBuffers @ [audioBuffer]))
      else Inr audioBuffers)"
  by pat_completeness auto
termination
  by (relation "measure (\<lambda>(env, enhancedChunks, i, audioBuffers). length enhancedChunks - i)") auto

text \<open>
  \<open>generateWithElevenLabs\<close>.  \<open>getRealisticVoiceId\<close> calls \<open>toLowerCase\<close> on the voice of
  the configuration it is given, which throws a \<open>TypeError\<close> when there is none.
\<close>

definition generateWithElevenLabs :: "tts_env \<Rightarrow> string \<Rightarrow> string list \<Rightarrow> TTSOptions
    \<Rightarrow> string + TTSResult \<times> buffer" where
  "generateWithElevenLabs env script chunks_arg config =
     (if \<not> elevenlabs env then Inl ''ElevenLabs not configured''
      else if voice config = None
      then Inl ''Cannot read properties of undefined (reading 'toLowerCase')''
      else
        let enhancedScript = enhanceScriptForRealism env script;
            enhancedChunks = splitEnhancedScript enhancedScript
        in case elevenlabs_loop env enhancedChunks 0 [] of
             Inl err \<Rightarrow> Inl err
           | Inr audioBuffers \<Rightarrow>
               let combinedBuffer = concat audioBuffers;
                   finalBuffer = (if enhanceAudio config = Some True
                                  then enhanceAudioForRealism env combinedBuffer
                                  else combinedBuffer)
               in Inr (\<lparr> success = True, format = ''mp3'', size' = Some (length finalBuffer),
                          provider' = ''elevenlabs'', voice' = voice config,
                          enhancedAudio = enhanceAudio config, error = None,
                          metadata = \<lparr> chunks = None, audioQuality = ''premium'',
                            realistic = Some True, voiceModulation = Some True,
                            fallbackUsed = None, originalProvider = None \<rparr> \<rparr>,
                        finalBuffer))"

text \<open>The chunk loop of \<open>generateWithAzure\<close>: one request per chunk, no pause between.\<close>

fun azure_loop :: "tts_env \<Rightarrow> nat \<Rightarrow> string list \<Rightarrow> buffer list \<Rightarrow> string + buffer list" where
  "azure_loop env i [] audioBuffers = Inr audioBuffers"
| "azure_loop env i (chunk # rest) audioBuffers =
     (case azure_fetch env i chunk of
        Inl err \<Rightarrow> Inl err
      | Inr audioBuffer \<Rightarrow> azure_loop env (Suc i) rest (audioBuffers @ [audioBuffer]))"

definition generateWithAzure :: "tts_env \<Rightarrow> string \<Rightarrow> string list \<Rightarrow> TTSOptions
    \<Rightarrow> string + TTSResult \<times> buffer" where
  "generateWithAzure env script chunks_arg config =
     (if \<not> truthy (AZURE_SPEECH_KEY env) then Inl ''AZURE_SPEECH_KEY environment variable is required''
      else
        case azure_loop env 0 chunks_arg [] of
          Inl err \<Rightarrow> Inl err
        | Inr audioBuffers \<Rightarrow>
            let combinedBuffer = concat audioBuffers;
                finalBuffer = (if enhanceAudio config = Some True
                               then enhanceAudioForRealism env combinedBuffer
                               else combinedBuffer)
            in Inr (\<lparr> success = True, format = ''mp3'', size' = Some (length finalBuffer),
                       provider' = ''azure'',
                       voice' = (if truthy (voice config) then voice config else Some ''default''),
                       enhancedAudio = enhanceAudio config, error = None,
                       metadata = \<lparr> chunks = None, audioQuality = ''premium'',
                         realistic = Some True, voiceModulation = Some True,
                         fallbackUsed = None, originalProvider = None \<rparr> \<rparr>,
                     finalBuffer))"

definition generateWithProvider :: "tts_env \<Rightarrow> string \<Rightarrow> string list \<Rightarrow> string \<Rightarrow> TTSOptions
    \<Rightarrow> string + TTSResult \<times> buffer" where
  "generateWithProvider env script chunks_arg p config =
     (if p = ''elevenlabs'' then generateWithElevenLabs env script chunks_arg config
      else if p = ''azure'' then generateWithAzure env script chunks_arg config
      else Inl (''Unsupported TTS provider: '' @ p @
                ''. Only 'elevenlabs' and 'azure' are supported.''))"

definition isProviderAvailable :: "tts_env \<Rightarrow> string \<Rightarrow> bool" where
  "isProviderAvailable env p =
     (if p = ''elevenlabs'' then elevenlabs env
      else if p = ''azure'' then truthy (AZURE_SPEECH_KEY env) \<and> truthy (AZURE_SPEECH_REGION env)
      else False)"

definition availableProviders :: "string list" where
  "availableProviders = [''azure'', ''elevenlabs'']"

definition getProviderFallbackOrder :: "string \<Rightarrow> string list" where
  "getProviderFallbackOrder preferredProvider =
     (if preferredProvider = ''auto'' then availableProviders
      else if preferredProvider \<in> set availableProviders then
        preferredProvider # filter (\<lambda>p. p \<noteq> preferredProvider) availableProviders
      else availableProviders)"

text \<open>The voice table of \<open>mapVoiceForProvider\<close>: name, Azure voice, ElevenLabs voice.\<close>

definition voiceMapping :: "(string \<times> string \<times> string) list" where
  "voiceMapping =
    [(''adam'', ''en-US-DavisNeural'', ''pNInz6obpgDQGcFmaJgB''),
     (''bella'', ''en-US-JennyNeural'', ''EXAVITQu4vr4xnSDxMaL''),
     (''charlie'', ''en-US-ChristopherNeural'', ''IKne3meq5aSn9XLyUdCD''),
     (''domi'', ''en-US-AriaNeural'', ''AZnzlk1XvdvUeBnXmlld''),
     (''elli'', ''en-US-SaraNeural'', ''MF3mGyEYCl7XYWbV9V6O''),
     (''fin'', ''en-US-GuyNeural'', ''D38z5RcWu1voky8WS1ja''),
     (''freya'', ''en-US-AmberNeural'', ''jsCqWAovK2LkecY7zXl4''),
     (''giovanni'', ''en-US-TonyNeural'', ''zcAOhNBS3c14rBihAFp1''),
     (''josh'', ''en-US-BrandonNeural'', ''TxGEqnHWrfWFTfGW9XjX''),
     (''liam'', ''en-GB-RyanNeural'', ''TX3LPaxmHKxFdv7VOQHJ''),
     (''nicole'', ''en-US-MonicaNeural'', ''piTKgcLEGmPE4e6mEKli''),
     (''rachel'', ''en-US-AvaNeural'', ''21m00Tcm4TlvDq8ikWAM''),
     (''sam'', ''en-US-JasonNeural'', ''yoZ06aMxZJJ28mfd3POQ'')]"

definition mapVoiceForProvider :: "TTSOptions \<Rightarrow> string \<Rightarrow> TTSOptions" where
  "mapVoiceForProvider config p =
     (case (case voice config of None \<Rightarrow> None | Some v \<Rightarrow> map_of voiceMapping v) of
        Some (azure, el) \<Rightarrow>
          (if p = ''azure'' then config\<lparr>voice := Some azure\<rparr> else config)
      | None \<Rightarrow>
          (if p = ''elevenlabs'' then config
           else if p = ''azure'' then config\<lparr>voice := Some ''en-US-DavisNeural''\<rparr>
           else config))"

text \<open>
  The \<open>config\<close> of \<open>generateAudio\<close>: the defaults, overridden by every option the caller
  set (the spread \<open>...options\<close> comes last in the object literal).  In an options record
  \<open>None\<close> is a key the caller left out and \<open>Some v\<close> a key set to the value \<open>v\<close>.  A key that
  is there with the value \<open>undefined\<close> has no counterpart in the record: the spread copies
  such a key over the default, so the \<open>config\<close> of such a call holds \<open>undefined\<close> where
  \<open>generateAudio_config\<close> holds the default.  What is proved below of \<open>generateAudio\<close> is
  proved of the calls whose options give a value to every key they hold, as those of the
  object literal \<open>ttsOptions\<close> of the route do.
\<close>

definition get_or :: "'a \<Rightarrow> 'a option \<Rightarrow> 'a" where
  "get_or d v = (case v of None \<Rightarrow> d | Some x \<Rightarrow> x)"

definition or_default :: "'a \<Rightarrow> 'a option \<Rightarrow> 'a option" where
  "or_default d v = Some (get_or d v)"

definition generateAudio_config :: "TTSOptions \<Rightarrow> TTSOptions" where
  "generateAudio_config options =
     \<lparr> voice = or_default ''adam'' (voice options),
       speed = or_default (Num 1.0) (speed options),
       pitch = or_default (Num 1.0) (pitch options),
       volume = or_default (Num 1.0) (volume options),
       provider = or_default ''azure'' (provider options),
       voiceStability = or_default (Num 0.5) (voiceStability options),
       voiceSimilarity = or_default (Num 0.75) (voiceSimilarity options),
       style = or_default ''conversational'' (style options),
       emotion = or_default ''neutral'' (emotion options),
       language = or_default ''en-US'' (language options),
       enhanceAudio = or_default True (enhanceAudio options),
       addMusic = or_default False (addMusic options),
       musicVolume = or_default (Num 0.3) (musicVolume options) \<rparr>"

definition or_else :: "string \<Rightarrow> string \<Rightarrow> string" where
  "or_else s d = (if s \<noteq> [] then s else d)"

text \<open>
  The provider loop of \<open>generateAudio\<close>.  It returns from inside the loop with the first
  successful result (\<open>Inr\<close>); otherwise it ends with \<open>lastError\<close> (\<open>Inl\<close>), the message of
  the last error caught, if any.
\<close>

fun provider_loop :: "tts_env \<Rightarrow> string \<Rightarrow> string list \<Rightarrow> TTSOptions \<Rightarrow> string list
    \<Rightarrow> string option \<Rightarrow> string option + TTSResult \<times> buffer" where
  "provider_loop env processedScript chunks_arg config [] lastError = Inl lastError"
| "provider_loop env processedScript chunks_arg config (p # providers) lastError =
     (if \<not> isProviderAvailable env p
      then provider_loop env processedScript chunks_arg config providers lastError
      else
        let mappedConfig = mapVoiceForProvider config p in
        case generateWithProvider env processedScript chunks_arg p mappedConfig of
          Inr (result, file) \<Rightarrow>
            if success result then
              let preferred = (if provider config = Some ''auto'' then Some ''elevenlabs''
                               else provider config)
              in Inr (result\<lparr>metadata := (metadata result)\<lparr>chunks := Some (length chunks_arg),
                         fallbackUsed := Some (Some p \<noteq> preferred),
                         originalProvider := preferred\<rparr>\<rparr>, file)
            else provider_loop env processedScript chunks_arg config providers lastError
        | Inl err \<Rightarrow> provider_loop env processedScript chunks_arg config providers (Some err))"

definition generateAudio :: "tts_env \<Rightarrow> string \<Rightarrow> TTSOptions \<Rightarrow> TTSResult \<times> buffer option" where
  "generateAudio env script options =
     (let config = generateAudio_config options;
          processedScript = enhanceScriptForRealism env script;
          chunks_arg = splitScript processedScript 4000;
          providers = getProviderFallbackOrder (get_or ''azure'' (provider options))
      in case provider_loop env processedScript chunks_arg config providers None of
           Inr (result, file) \<Rightarrow> (result, Some file)
         | Inl lastError \<Rightarrow>
             (\<lparr> success = False, format = ''none'', size' = None, provider' = ''none'',
                voice' = voice config, enhancedAudio = None,
                error = Some (or_else (get_or [] lastError) ''All TTS providers failed''),
                metadata = \<lparr> chunks = None, audioQuality = ''standard'', realistic = None,
                  voiceModulation = None, fallbackUsed = None, originalProvider = None \<rparr> \<rparr>,
              None))"

section \<open>The text-to-speech route (the \<open>POST\<close> handler that builds \<open>ttsOptions\<close>)\<close>

text \<open>
  The fields of the request body that the route reads; a field the caller left out is
  \<open>None\<close> and takes the default of the destructuring pattern.  A numeric field holds the
  number its JSON value coerces to: \<open>NaN\<close> for a value that is no number, such as an object
  or the string \<open>fast\<close>.
\<close>

record RequestBody =
  script_in :: "string option"
  text_in :: "string option"
  voice_in :: "string option"
  speed_in :: "jsnum option"
  provider_in :: "string option"
  enhanceAudio_in :: "bool option"
  style_in :: "string option"
  emotion_in :: "string option"
  addMusic_in :: "bool option"
  voiceStability_in :: "jsnum option"
  voiceSimilarity_in :: "jsnum option"

definition ttsOptions :: "RequestBody \<Rightarrow> TTSOptions" where
  "ttsOptions b =
     (let voice0 = get_or ''default'' (voice_in b);
          speed0 = get_or (Num 1.0) (speed_in b);
          provider0 = get_or ''auto'' (provider_in b);
          enhanceAudio0 = get_or True (enhanceAudio_in b);
          style0 = get_or ''conversational'' (style_in b);
          emotion0 = get_or ''neutral'' (emotion_in b);
          voiceStability0 = get_or (Num 0.5) (voiceStability_in b);
          voiceSimilarity0 = get_or (Num 0.75) (voiceSimilarity_in b)
      in \<lparr> voice = Some (or_else voice0 ''adam''),
           speed = Some (Math_max (Num 0.8) (Math_min (Num 1.2) speed0)),
           pitch = Some (Num 1.0),
           volume = Some (Num 1.0),
           provider = Some (if provider0 = ''auto'' then ''azure'' else provider0),
           voiceStability = Some (Math_max (Num 0.5) (Math_min (Num 0.9) voiceStability0)),
           voiceSimilarity = Some (Math_max (Num 0.7) (Math_min (Num 0.95) voiceSimilarity0)),
           style = Some (or_else style0 ''conversational''),
           emotion = Some (or_else emotion0 ''natural''),
           language = Some ''en-US'',
           enhanceAudio = Some (enhanceAudio0 \<noteq> False),
           addMusic = Some False,
           musicVolume = None \<rparr>)"

text \<open>
  \<open>clamped lo hi v w\<close>: the value \<open>v\<close> is a number and \<open>w\<close> is that number clamped into
  \<open>[lo, hi]\<close>, that is, inside the range, equal to the nearest bound when \<open>v\<close> is outside
  it, and equal to \<open>v\<close> when it is inside.  \<open>in_range\<close> is the first part alone, for an
  option as the engine receives it.
\<close>

definition clamped :: "real \<Rightarrow> real \<Rightarrow> jsnum \<Rightarrow> jsnum option \<Rightarrow> bool" where
  "clamped lo hi v w =
     (case (v, w) of
        (Num x, Some (Num y)) \<Rightarrow>
          lo \<le> y \<and> y \<le> hi \<and> y = (if x < lo then lo else if hi < x then hi else x)
      | other \<Rightarrow> False)"

definition in_range :: "real \<Rightarrow> real \<Rightarrow> jsnum option \<Rightarrow> bool" where
  "in_range lo hi w = (case w of Some (Num y) \<Rightarrow> lo \<le> y \<and> y \<le> hi | other \<Rightarrow> False)"

definition is_number :: "jsnum \<Rightarrow> bool" where
  "is_number v = (case v of Num x \<Rightarrow> True | NaN \<Rightarrow> False)"

text \<open>A request that asks for speed 5 and stability 0.1 and leaves the similarity out, and
  the same request with a speed that is not a number.\<close>

definition demo_body :: RequestBody where
  "demo_body = \<lparr> script_in = Some ''Hello there. How are you?'', text_in = None, voice_in = None,
     speed_in = Some (Num 5), provider_in = None, enhanceAudio_in = None, style_in = None,
     emotion_in = None, addMusic_in = None, voiceStability_in = Some (Num 0.1),
     voiceSimilarity_in = None \<rparr>"

definition demo_body_nan :: RequestBody where
  "demo_body_nan = demo_body\<lparr>speed_in := Some NaN\<rparr>"

section \<open>Notions used to state the properties of the pipeline\<close>

text \<open>
  The segments of a reassembly as the spec describes it: the audio of each chunk in index
  order, with the pause derived from a chunk between its audio and the next one, and
  nothing after the last.
\<close>

fun interleave :: "string list \<Rightarrow> buffer list \<Rightarrow> buffer list" where
  "interleave (c # c' # cs) (a # as) = a # generateNaturalPause c # interleave (c' # cs) as"
| "interleave [c] (a # as) = [a]"
| "interleave cs as = []"

text \<open>The chunks \<open>generateWithElevenLabs\<close> synthesises for a script.\<close>

definition enhancedChunks_of :: "tts_env \<Rightarrow> string \<Rightarrow> string list" where
  "enhancedChunks_of env script = splitEnhancedScript (enhanceScriptForRealism env script)"


text \<open>
  The messages of the errors that \<open>generateAudio\<close> catches while it walks the providers:
  one for each available provider whose attempt throws, in the order of the attempts.
\<close>

definition failures :: "tts_env \<Rightarrow> string \<Rightarrow> string list \<Rightarrow> TTSOptions \<Rightarrow> string list \<Rightarrow> string list" where
  "failures env processedScript chunks_arg config providers =
     concat (map (\<lambda>p. if isProviderAvailable env p
                       then (case generateWithProvider env processedScript chunks_arg p
                                    (mapVoiceForProvider config p) of
                               Inl err \<Rightarrow> [err] | Inr res \<Rightarrow> [])
                       else []) providers)"

text \<open>Every provider of the list is skipped as unavailable, or its attempt throws.\<close>

definition all_skipped_or_failed :: "tts_env \<Rightarrow> string \<Rightarrow> string list \<Rightarrow> TTSOptions \<Rightarrow> string list \<Rightarrow> bool" where
  "all_skipped_or_failed env processedScript chunks_arg config providers =
     list_all (\<lambda>p. \<not> isProviderAvailable env p
                 \<or> isl (generateWithProvider env processedScript chunks_arg p
                          (mapVoiceForProvider config p))) providers"

text \<open>
  What the spec asks of the aggregate failure, read on the only place the result has for
  it, the \<open>error\<close> string: it shows the code of the classification, every attempted
  provider's name, and a non-empty suggestion.
\<close>

definition carries_failure_report :: "TTSResult \<Rightarrow> 'v ErrorInfo \<Rightarrow> string list \<Rightarrow> bool" where
  "carries_failure_report r info attempted =
     (case error r of
        None \<Rightarrow> False
      | Some m \<Rightarrow> str_includes m (code info) \<and> list_all (str_includes m) attempted
                  \<and> suggestion info \<noteq> [] \<and> str_includes m (suggestion info))"

text \<open>
  Concrete worlds.  In \<open>demo_tts\<close> Azure answers every chunk with three bytes, ElevenLabs
  is not configured and the filter run throws; in \<open>demo_tts_denied\<close> Azure rejects the
  key; in \<open>demo_tts_el\<close> ElevenLabs answers chunk \<open>i\<close> with the byte \<open>i\<close> and ffmpeg is
  absent; in \<open>demo_tts_both\<close> it does so while the filter run throws.
\<close>

definition demo_tts :: tts_env where
  "demo_tts = \<lparr> elevenlabs = False, el_generate = (\<lambda>i c. Inl ''unused''),
     AZURE_SPEECH_KEY = Some ''key'', AZURE_SPEECH_REGION = Some ''southeastasia'',
     azure_fetch = (\<lambda>i c. Inr [1, 2, 3]), ffmpeg = True, run_filters = (\<lambda>b. None),
     enhanceScriptForRealism = (\<lambda>s. s) \<rparr>"

definition demo_tts_denied :: tts_env where
  "demo_tts_denied = demo_tts\<lparr>azure_fetch := (\<lambda>i c. Inl ''Azure TTS API error: 401 - denied'')\<rparr>"

definition demo_tts_el :: tts_env where
  "demo_tts_el = demo_tts\<lparr>elevenlabs := True, el_generate := (\<lambda>i c. Inr [of_nat i]),
     ffmpeg := False\<rparr>"


definition demo_options :: TTSOptions where
  "demo_options = \<lparr> voice = Some ''adam'', speed = None, pitch = None, volume = None,
     provider = Some ''azure'', voiceStability = None, voiceSimilarity = None, style = None,
     emotion = None, language = None, enhanceAudio = Some True, addMusic = None,
     musicVolume = None \<rparr>"

text \<open>
  A script of three sentences of 1500 letters each, the first closed by an exclamation
  mark and the other two by a period (4503 units, so that both planners cut it), and the
  options that ask for ElevenLabs.
\<close>

definition demo_sentence :: "char \<Rightarrow> string" where
  "demo_sentence c = replicate 1500 c"

definition demo_script :: string where
  "demo_script = demo_sentence CHR ''a'' @ ''!'' @ demo_sentence CHR ''b'' @ ''.''
     @ demo_sentence CHR ''c'' @ ''.''"

definition demo_options_el :: TTSOptions where
  "demo_options_el = demo_options\<lparr>provider := Some ''elevenlabs''\<rparr>"

text \<open>The same two notions for the arguments \<open>generateAudio\<close> passes to its loop.\<close>

definition generateAudio_failures :: "tts_env \<Rightarrow> string \<Rightarrow> TTSOptions \<Rightarrow> string list" where
  "generateAudio_failures env script options =
     failures env (enhanceScriptForRealism env script)
       (splitScript (enhanceScriptForRealism env script) 4000) (generateAudio_config options)
       (getProviderFallbackOrder (get_or ''azure'' (provider options)))"

definition all_providers_exhausted :: "tts_env \<Rightarrow> string \<Rightarrow> TTSOptions \<Rightarrow> bool" where
  "all_providers_exhausted env script options =
     all_skipped_or_failed env (enhanceScriptForRealism env script)
       (splitScript (enhanceScriptForRealism env script) 4000) (generateAudio_config options)
       (getProviderFallbackOrder (get_or ''azure'' (provider options)))"

section \<open>Notions used to state the properties of the chunk planner\<close>

text \<open>
  Two texts are compared up to white space by deleting all of it (\<open>strip_ws\<close>), and up to
  white space and sentence terminators by deleting those too (\<open>strip_ws_terms\<close>).
\<close>

definition strip_ws :: "string \<Rightarrow> string" where
  "strip_ws s = filter (\<lambda>c. \<not> is_space c) s"

definition strip_ws_terms :: "string \<Rightarrow> string" where
  "strip_ws_terms s = filter (\<lambda>c. \<not> is_space c \<and> \<not> is_term c) s"

text \<open>The sentences the two planners iterate over.\<close>

definition sentences_of :: "string \<Rightarrow> string list" where
  "sentences_of script = (if match_sentences script = [] then [script] else match_sentences script)"

definition fine_sentences :: "string \<Rightarrow> string list" where
  "fine_sentences script = filter (\<lambda>sentence. trim sentence \<noteq> []) (split_terms script)"

definition total_length :: "string list \<Rightarrow> nat" where
  "total_length g = sum_list (map length g)"

text \<open>
  A text made of whole sentences: it has no terminator at all, or it starts with a
  non-terminator and ends with a terminator.
\<close>

definition whole_sentences :: "string \<Rightarrow> bool" where
  "whole_sentences s = (\<not> list_ex is_term s \<or> (s \<noteq> [] \<and> \<not> is_term (hd s) \<and> is_term (last s)))"

text \<open>
  A group of sentences respects the limit when it is a single sentence or its sentences
  total at most the limit.
\<close>

definition within_limit :: "int \<Rightarrow> string list \<Rightarrow> bool" where
  "within_limit limit g = (g \<noteq> [] \<and> (length g = 1 \<or> int (total_length g) \<le> limit))"

text \<open>
  The loop invariants: \<open>groups\<close> are the sentences behind the chunks already closed and
  \<open>g\<close> those gathered in \<open>currentChunk\<close>.
\<close>

definition coarse_inv :: "int \<Rightarrow> string list \<Rightarrow> string \<Rightarrow> string list list \<Rightarrow> string list \<Rightarrow> bool" where
  "coarse_inv limit chunks_done currentChunk groups g =
     (map strip_ws chunks_done = map (\<lambda>h. strip_ws (concat h)) groups
      \<and> strip_ws currentChunk = strip_ws (concat g)
      \<and> total_length g \<le> length currentChunk
      \<and> (currentChunk \<noteq> [] \<longleftrightarrow> g \<noteq> [])
      \<and> list_all (within_limit limit) groups
      \<and> (g \<noteq> [] \<longrightarrow> within_limit limit g))"

definition fine_inv :: "string list \<Rightarrow> string \<Rightarrow> string list list \<Rightarrow> string list \<Rightarrow> bool" where
  "fine_inv chunks_done currentChunk groups g =
     (map strip_ws_terms chunks_done = map (\<lambda>h. strip_ws_terms (concat h)) groups
      \<and> strip_ws_terms currentChunk = strip_ws_terms (concat g)
      \<and> total_length g \<le> length currentChunk
      \<and> (currentChunk \<noteq> [] \<longleftrightarrow> g \<noteq> [])
      \<and> list_all (within_limit 500) groups
      \<and> (g \<noteq> [] \<longrightarrow> within_limit 500 g))"

section \<open>Properties of the classifier\<close>

lemma code_cases:
  "code (categorizeError ts e ctx) \<in> source_retryable_codes \<and> retryable (categorizeError ts e ctx)
   \<or> code (categorizeError ts e ctx) \<in> source_final_codes \<and> \<not> retryable (categorizeError ts e ctx)"
  by (simp add: categorizeError_def mk_def Let_def source_retryable_codes_def source_final_codes_def)

lemma retryable_disjoint: "source_retryable_codes \<inter> source_final_codes = {}"
  by (simp add: source_retryable_codes_def source_final_codes_def)

text \<open>
  C8 (as the source has it).  The classification is retryable exactly when its code is one of
  NETWORK_ERROR, RATE_LIMIT, TIMEOUT, SERVICE_UNAVAILABLE, BROWSER_ERROR, INTERNAL_SERVER_ERROR;
  every other classification has one of the codes AUTH_ERROR, CONTENT_POLICY, VALIDATION_ERROR,
  FILE_SYSTEM_ERROR, UNKNOWN_ERROR and is not retryable; and when no rule of the ordered table
  matches the message, the code is UNKNOWN_ERROR and the classification is not retryable.
\<close>

theorem categorizeError_retryable_codes:
  "retryable (categorizeError ts e ctx) = (code (categorizeError ts e ctx) \<in> source_retryable_codes)
   \<and> (\<not> retryable (categorizeError ts e ctx)) = (code (categorizeError ts e ctx) \<in> source_final_codes)
   \<and> (no_rule_matches (err_message e) \<longrightarrow>
        code (categorizeError ts e ctx) = ''UNKNOWN_ERROR'' \<and> \<not> retryable (categorizeError ts e ctx))"
proof -
  have a: "retryable (categorizeError ts e ctx) = (code (categorizeError ts e ctx) \<in> source_retryable_codes)"
    using code_cases [of ts e ctx] retryable_disjoint by blast
  have b: "(\<not> retryable (categorizeError ts e ctx)) = (code (categorizeError ts e ctx) \<in> source_final_codes)"
    using code_cases [of ts e ctx] retryable_disjoint by blast
  have c: "no_rule_matches (err_message e) \<longrightarrow>
        code (categorizeError ts e ctx) = ''UNKNOWN_ERROR'' \<and> \<not> retryable (categorizeError ts e ctx)"
    by (simp add: no_rule_matches_def categorizeError_def Let_def)
  from a b c show ?thesis by blast
qed

theorem categorizeError_retryable_codes_witness:
  "no_rule_matches ''boom'' \<and>
   code (categorizeError ''t0'' (Error ''boom'' None) Map.empty :: unit ErrorInfo) = ''UNKNOWN_ERROR'' \<and>
   \<not> retryable (categorizeError ''t0'' (Error ''boom'' None) Map.empty :: unit ErrorInfo)"
proof -
  have h: "no_rule_matches ''boom''"
    by (simp add: no_rule_matches_def is_network_def is_rate_limit_def is_auth_def is_timeout_def
        is_unavailable_def is_content_policy_def is_validation_def is_browser_def
        is_file_system_def is_internal_def)
  have "no_rule_matches (err_message (Error ''boom'' None)) \<longrightarrow>
      code (categorizeError ''t0'' (Error ''boom'' None) Map.empty :: unit ErrorInfo) = ''UNKNOWN_ERROR'' \<and>
      \<not> retryable (categorizeError ''t0'' (Error ''boom'' None) Map.empty :: unit ErrorInfo)"
    using categorizeError_retryable_codes
      [of "''t0''" "Error ''boom'' None" "Map.empty :: string \<rightharpoonup> unit jsval"]
    by blast
  with h show ?thesis by simp
qed

text \<open>
  C8 as the spec words it fails: a message that mentions the browser is classified
  BROWSER_ERROR and retryable, and BROWSER_ERROR is not among the spec's retryable codes
  (the spec's name for that rule, AUTOMATION_BLOCKED, is never produced).
\<close>

theorem categorizeError_spec_codes_counterexample:
  "retryable (categorizeError ''t0'' (Error ''browser closed'' None) Map.empty :: unit ErrorInfo)
   \<and> code (categorizeError ''t0'' (Error ''browser closed'' None) Map.empty :: unit ErrorInfo)
       = ''BROWSER_ERROR''
   \<and> code (categorizeError ''t0'' (Error ''browser closed'' None) Map.empty :: unit ErrorInfo)
       \<notin> spec_retryable_codes"
  by (simp add: categorizeError_def mk_def Let_def spec_retryable_codes_def is_network_def
      is_rate_limit_def is_auth_def is_timeout_def is_unavailable_def is_content_policy_def
      is_validation_def is_browser_def)

lemma categorizeError_field:
  assumes "err_message e' = err_message e"
    and "\<And>c m sev sug r. f (mk t1 e' ctx c m sev sug r) = f (mk t2 e ctx c m sev sug r)"
    and "\<And>m. f \<lparr> code = ''UNKNOWN_ERROR'', message = m, severity = medium,
         context' = (ctx(''originalError'' \<mapsto> JString (err_message e)))(''stack'' \<mapsto> stack_val e'),
         suggestion = ''Please try again or contact support if the issue persists'',
         retryable = False, timestamp = t1 \<rparr>
       = f \<lparr> code = ''UNKNOWN_ERROR'', message = m, severity = medium,
         context' = (ctx(''originalError'' \<mapsto> JString (err_message e)))(''stack'' \<mapsto> stack_val e),
         suggestion = ''Please try again or contact support if the issue persists'',
         retryable = False, timestamp = t2 \<rparr>"
  shows "f (categorizeError t1 e' ctx) = f (categorizeError t2 e ctx)"
  unfolding categorizeError_def Let_def assms(1)
  by (simp only: if_distrib [of f] assms(2,3))


lemma categorizeError_clock:
  "categorizeError t2 e ctx = (categorizeError t1 e ctx)\<lparr>timestamp := t2\<rparr>"
  unfolding categorizeError_def Let_def mk_def
  by (simp add: if_distrib [of "\<lambda>r. r\<lparr>timestamp := t2\<rparr>"] split del: if_split cong: if_cong)

text \<open>
  C9 (as the source has it).  Two classifications of the same error (same message, same
  stack) under the same context agree in every field except the timestamp: the result at
  clock reading \<open>t2\<close> is the result at \<open>t1\<close> with the timestamp replaced.  Two errors that
  have only the message in common get the same code, message, severity, suggestion and
  retryable flag, and the same context apart from the entry \<open>stack\<close>.  \<open>categorizeError\<close>
  has no failing branch: it is a chain of substring tests on the message of an \<open>Error\<close>
  that ends in an unconditional default, so it returns a classification for every error.
\<close>

theorem categorizeError_deterministic:
  "categorizeError t2 e ctx = (categorizeError t1 e ctx)\<lparr>timestamp := t2\<rparr>
   \<and> timestamp (categorizeError t2 e ctx) = t2
   \<and> (err_message e' = err_message e \<longrightarrow>
        code (categorizeError t1 e' ctx) = code (categorizeError t2 e ctx)
        \<and> message (categorizeError t1 e' ctx) = message (categorizeError t2 e ctx)
        \<and> severity (categorizeError t1 e' ctx) = severity (categorizeError t2 e ctx)
        \<and> suggestion (categorizeError t1 e' ctx) = suggestion (categorizeError t2 e ctx)
        \<and> retryable (categorizeError t1 e' ctx) = retryable (categorizeError t2 e ctx)
        \<and> (context' (categorizeError t1 e' ctx))(''stack'' := None)
            = (context' (categorizeError t2 e ctx))(''stack'' := None))"
proof -
  have a: "categorizeError t2 e ctx = (categorizeError t1 e ctx)\<lparr>timestamp := t2\<rparr>"
    by (rule categorizeError_clock)
  have b: "timestamp (categorizeError t2 e ctx) = t2"
    by (simp add: a)
  have d: "code (categorizeError t1 e' ctx) = code (categorizeError t2 e ctx)
        \<and> message (categorizeError t1 e' ctx) = message (categorizeError t2 e ctx)
        \<and> severity (categorizeError t1 e' ctx) = severity (categorizeError t2 e ctx)
        \<and> suggestion (categorizeError t1 e' ctx) = suggestion (categorizeError t2 e ctx)
        \<and> retryable (categorizeError t1 e' ctx) = retryable (categorizeError t2 e ctx)
        \<and> (context' (categorizeError t1 e' ctx))(''stack'' := None)
            = (context' (categorizeError t2 e ctx))(''stack'' := None)"
    if m: "err_message e' = err_message e"
  proof (intro conjI)
    show "code (categorizeError t1 e' ctx) = code (categorizeError t2 e ctx)"
      by (rule categorizeError_field [OF m]) (simp_all add: mk_def)
    show "message (categorizeError t1 e' ctx) = message (categorizeError t2 e ctx)"
      by (rule categorizeError_field [OF m]) (simp_all add: mk_def)
    show "severity (categorizeError t1 e' ctx) = severity (categorizeError t2 e ctx)"
      by (rule categorizeError_field [OF m]) (simp_all add: mk_def)
    show "suggestion (categorizeError t1 e' ctx) = suggestion (categorizeError t2 e ctx)"
      by (rule categorizeError_field [OF m]) (simp_all add: mk_def)
    show "retryable (categorizeError t1 e' ctx) = retryable (categorizeError t2 e ctx)"
      by (rule categorizeError_field [OF m]) (simp_all add: mk_def)
    show "(context' (categorizeError t1 e' ctx))(''stack'' := None)
            = (context' (categorizeError t2 e ctx))(''stack'' := None)"
      by (rule categorizeError_field [OF m, where f = "\<lambda>r. (context' r)(''stack'' := None)"])
        (simp_all add: mk_def m)
  qed
  from a b d show ?thesis by blast
qed

theorem categorizeError_deterministic_witness:
  "err_message (Error ''boom'' (Some ''at a'')) = err_message (Error ''boom'' (Some ''at b''))
   \<and> code (categorizeError ''t1'' (Error ''boom'' (Some ''at a'')) Map.empty :: unit ErrorInfo)
       = code (categorizeError ''t2'' (Error ''boom'' (Some ''at b'')) Map.empty :: unit ErrorInfo)
   \<and> retryable (categorizeError ''t1'' (Error ''boom'' (Some ''at a'')) Map.empty :: unit ErrorInfo)
       = retryable (categorizeError ''t2'' (Error ''boom'' (Some ''at b'')) Map.empty :: unit ErrorInfo)"
proof -
  have h: "err_message (Error ''boom'' (Some ''at a'')) = err_message (Error ''boom'' (Some ''at b''))"
    by simp
  show ?thesis
    using h categorizeError_deterministic
      [of "''t2''" "Error ''boom'' (Some ''at b'')" "Map.empty :: string \<rightharpoonup> unit jsval" "''t1''"
        "Error ''boom'' (Some ''at a'')"]
    by blast
qed

text \<open>
  C9 as the spec words it fails: two errors with the same message and different stacks,
  classified under the same context at the same time, differ in their \<open>context\<close>, because
  the default rule copies the stack into it.
\<close>

theorem categorizeError_stack_counterexample:
  "code (categorizeError ''t0'' (Error ''boom'' (Some ''at a'')) Map.empty :: unit ErrorInfo)
     = ''UNKNOWN_ERROR''
   \<and> context' (categorizeError ''t0'' (Error ''boom'' (Some ''at a'')) Map.empty :: unit ErrorInfo)
       \<noteq> context' (categorizeError ''t0'' (Error ''boom'' (Some ''at b'')) Map.empty :: unit ErrorInfo)"
proof -
  have n: "\<not> is_network ''boom''" "\<not> is_rate_limit ''boom''" "\<not> is_auth ''boom''"
    "\<not> is_timeout ''boom''" "\<not> is_unavailable ''boom''" "\<not> is_content_policy ''boom''"
    "\<not> is_validation ''boom''" "\<not> is_browser ''boom''" "\<not> is_file_system ''boom''"
    "\<not> is_internal ''boom''"
    by (simp_all add: is_network_def is_rate_limit_def is_auth_def is_timeout_def
        is_unavailable_def is_content_policy_def is_validation_def is_browser_def
        is_file_system_def is_internal_def)
  have "context' (categorizeError ''t0'' (Error ''boom'' (Some ''at a'')) Map.empty :: unit ErrorInfo)
          ''stack'' = Some (JString ''at a'')"
    and "context' (categorizeError ''t0'' (Error ''boom'' (Some ''at b'')) Map.empty :: unit ErrorInfo)
          ''stack'' = Some (JString ''at b'')"
    and c: "code (categorizeError ''t0'' (Error ''boom'' (Some ''at a'')) Map.empty :: unit ErrorInfo)
     = ''UNKNOWN_ERROR''"
    by (simp_all add: categorizeError_def n stack_val_def Let_def)
  then have "context' (categorizeError ''t0'' (Error ''boom'' (Some ''at a'')) Map.empty :: unit ErrorInfo)
       \<noteq> context' (categorizeError ''t0'' (Error ''boom'' (Some ''at b'')) Map.empty :: unit ErrorInfo)"
    by auto
  with c show ?thesis by blast
qed

section \<open>Properties of the retry controller\<close>

declare retry_loop.simps [simp del]

lemma retry_loop_skip:
  assumes "\<forall>i. a \<le> i \<and> i < k \<longrightarrow> fails_retryable env i" and "a \<le> k" and "int k \<le> maxRetries config"
  shows "\<exists>le st'. retry_loop config env a lastError st = retry_loop config env k le st'
       \<and> attempts st' = attempts st + (k - a)
       \<and> delays st' = delays st @ map (\<lambda>i. calculateDelay (random env i) i config) [a..<k]"
  using assms
proof (induction "k - a" arbitrary: a lastError st)
  case 0
  then have "a = k" by simp
  then show ?case by auto
next
  case (Suc n)
  then have lt: "a < k" and fr: "fails_retryable env a" by auto
  from fr obtain e where op: "operation env a = Inl e"
    and r: "retryable (categorizeError (clock env a) e (context_arg env))"
    by (auto simp: fails_retryable_def split: sum.splits)
  let ?info = "categorizeError (clock env a) e (context_arg env)"
  let ?st1 = "st\<lparr>attempts := Suc (attempts st), errorLog := logError (errorLog st) ?info\<rparr>"
  let ?st2 = "?st1\<lparr>delays := delays ?st1 @ [calculateDelay (random env a) a config]\<rparr>"
  have step: "retry_loop config env a lastError st = retry_loop config env (Suc a) (Some e) ?st2"
    using lt Suc.prems(3) op r by (subst retry_loop.simps) (simp add: Let_def)
  have "n = k - Suc a" using Suc.hyps(2) by simp
  moreover have "\<forall>i. Suc a \<le> i \<and> i < k \<longrightarrow> fails_retryable env i" using Suc.prems(1) by auto
  moreover have "Suc a \<le> k" using lt by simp
  ultimately obtain le st' where
    eq: "retry_loop config env (Suc a) (Some e) ?st2 = retry_loop config env k le st'"
    and at: "attempts st' = attempts ?st2 + (k - Suc a)"
    and dl: "delays st' = delays ?st2 @ map (\<lambda>i. calculateDelay (random env i) i config) [Suc a..<k]"
    using Suc.hyps(1) [of "Suc a" "Some e" ?st2] Suc.prems(3) by blast
  have "[a..<k] = a # [Suc a..<k]" using lt by (simp add: upt_conv_Cons)
  then show ?case using step eq at dl lt by (intro exI [of _ le] exI [of _ st']) simp
qed

lemma retry_loop_success:
  assumes "operation env k = Inr v" and "int k \<le> maxRetries config"
  shows "retry_loop config env k le st = (Returned v, st\<lparr>attempts := Suc (attempts st)\<rparr>)"
  using assms by (subst retry_loop.simps) simp

lemma retry_loop_final:
  assumes "operation env k = Inl e" and "int k \<le> maxRetries config"
    and "int k = maxRetries config \<or> \<not> retryable (categorizeError (clock env k) e (context_arg env))"
  shows "retry_loop config env k le st =
     (Thrown (enhanceError e (categorizeError (clock env k) e (context_arg env))),
      st\<lparr>attempts := Suc (attempts st),
         errorLog := logError (errorLog st) (categorizeError (clock env k) e (context_arg env))\<rparr>)"
  using assms by (subst retry_loop.simps) (auto simp: Let_def)

lemma executeWithRetry_first_success:
  assumes "\<forall>i<k. fails_retryable env i" and "operation env k = Inr v" and "int k \<le> maxRetries config"
  shows "fst (executeWithRetry config env elog) = Returned v
       \<and> attempts (snd (executeWithRetry config env elog)) = k + 1
       \<and> delays (snd (executeWithRetry config env elog))
           = map (\<lambda>i. calculateDelay (random env i) i config) [0..<k]"
proof -
  let ?st0 = "\<lparr> attempts = 0, delays = [], errorLog = elog \<rparr>"
  obtain le st' where
    eq: "retry_loop config env 0 None ?st0 = retry_loop config env k le st'"
    and at: "attempts st' = attempts ?st0 + (k - 0)"
    and dl: "delays st' = delays ?st0 @ map (\<lambda>i. calculateDelay (random env i) i config) [0..<k]"
    using retry_loop_skip [of 0 k env config None ?st0] assms(1,3) by auto
  show ?thesis
    unfolding executeWithRetry_def eq retry_loop_success [OF assms(2,3)]
    using at dl by simp
qed

lemma executeWithRetry_exhausted:
  assumes "\<forall>i. int i \<le> maxRetries config \<longrightarrow> fails_retryable env i" and "0 \<le> maxRetries config"
  shows "(\<exists>e. operation env (nat (maxRetries config)) = Inl e
            \<and> fst (executeWithRetry config env elog)
                = Thrown (enhanceError e
                    (categorizeError (clock env (nat (maxRetries config))) e (context_arg env))))
       \<and> int (attempts (snd (executeWithRetry config env elog))) = maxRetries config + 1
       \<and> int (length (delays (snd (executeWithRetry config env elog)))) = maxRetries config"
proof -
  let ?k = "nat (maxRetries config)"
  let ?st0 = "\<lparr> attempts = 0, delays = [], errorLog = elog \<rparr>"
  have k: "int ?k = maxRetries config" using assms(2) by simp
  obtain le st' where
    eq: "retry_loop config env 0 None ?st0 = retry_loop config env ?k le st'"
    and at: "attempts st' = attempts ?st0 + (?k - 0)"
    and dl: "delays st' = delays ?st0 @ map (\<lambda>i. calculateDelay (random env i) i config) [0..<?k]"
    using retry_loop_skip [of 0 ?k env config None ?st0] assms by auto
  have "fails_retryable env ?k" using assms k by simp
  then obtain e where op: "operation env ?k = Inl e"
    by (auto simp: fails_retryable_def split: sum.splits)
  have fin: "retry_loop config env ?k le st' =
     (Thrown (enhanceError e (categorizeError (clock env ?k) e (context_arg env))),
      st'\<lparr>attempts := Suc (attempts st'),
         errorLog := logError (errorLog st') (categorizeError (clock env ?k) e (context_arg env))\<rparr>)"
    using retry_loop_final [OF op, of config le st'] k by simp
  show ?thesis
    unfolding executeWithRetry_def eq fin using op at dl k by simp
qed

lemma executeWithRetry_final_first:
  assumes "fails_final env 0" and "0 \<le> maxRetries config"
  shows "is_thrown (fst (executeWithRetry config env elog))
       \<and> attempts (snd (executeWithRetry config env elog)) = 1
       \<and> delays (snd (executeWithRetry config env elog)) = []"
proof -
  from assms(1) obtain e where op: "operation env 0 = Inl e"
    and r: "\<not> retryable (categorizeError (clock env 0) e (context_arg env))"
    by (auto simp: fails_final_def split: sum.splits)
  show ?thesis
    unfolding executeWithRetry_def
    using retry_loop_final [OF op, of config None] r assms(2) by (simp add: is_thrown_def)
qed

lemma calculateDelay_backoff:
  "exponentialBackoff config \<Longrightarrow>
   calculateDelay rand a config =
     min (maxDelay config) (baseDelay config * 2 ^ a + rand * 0.1 * (baseDelay config * 2 ^ a))"
  by (simp add: calculateDelay_def Let_def min.commute)

lemma jitter_bounds:
  assumes "0 \<le> (b::real)" and "0 \<le> rand" and "rand < 1"
  shows "0 \<le> rand * 0.1 * (b * 2 ^ a) \<and> rand * 0.1 * (b * 2 ^ a) \<le> 0.1 * (b * 2 ^ a)"
proof -
  have e: "0 \<le> b * 2 ^ a" using assms(1) by simp
  have "rand * (0.1 * (b * 2 ^ a)) \<le> 1 * (0.1 * (b * 2 ^ a))"
    using assms(3) e by (intro mult_right_mono) auto
  moreover have "0 \<le> rand * (0.1 * (b * 2 ^ a))" using assms(2) e by simp
  ultimately show ?thesis by (simp add: mult.assoc)
qed

lemma calculateDelay_mono:
  assumes "exponentialBackoff config" and "0 \<le> baseDelay config"
    and "0 \<le> r1" and "r1 < 1" and "0 \<le> r2" and "r2 < 1"
  shows "calculateDelay r1 a config \<le> calculateDelay r2 (Suc a) config"
proof -
  let ?e = "baseDelay config * 2 ^ a"
  have e: "0 \<le> ?e" using assms(2) by simp
  have j1: "r1 * 0.1 * ?e \<le> 0.1 * ?e" using jitter_bounds [OF assms(2,3,4), of a] by simp
  have j2: "0 \<le> r2 * 0.1 * (baseDelay config * 2 ^ Suc a)"
    using jitter_bounds [OF assms(2,5,6), of "Suc a"] by simp
  have "?e + r1 * 0.1 * ?e \<le> 2 * ?e" using j1 e by simp
  also have "\<dots> = baseDelay config * 2 ^ Suc a" by simp
  also have "\<dots> \<le> baseDelay config * 2 ^ Suc a + r2 * 0.1 * (baseDelay config * 2 ^ Suc a)"
    using j2 by simp
  finally have "?e + r1 * 0.1 * ?e
      \<le> baseDelay config * 2 ^ Suc a + r2 * 0.1 * (baseDelay config * 2 ^ Suc a)" .
  then show ?thesis
    unfolding calculateDelay_backoff [OF assms(1)] by (simp add: min_le_iff_disj)
qed

lemma sorted_delays:
  assumes "exponentialBackoff config" and "0 \<le> baseDelay config"
    and "\<forall>i. 0 \<le> random env i \<and> random env i < 1"
  shows "sorted (map (\<lambda>i. calculateDelay (random env i) i config) [0..<k])"
proof -
  have "\<forall>i. Suc i < k \<longrightarrow>
      map (\<lambda>i. calculateDelay (random env i) i config) [0..<k] ! i
        \<le> map (\<lambda>i. calculateDelay (random env i) i config) [0..<k] ! Suc i"
    using calculateDelay_mono [OF assms(1,2)] assms(3) by simp
  then show ?thesis by (simp add: sorted_iff_nth_Suc)
qed

text \<open>
  C5.  With exponential backoff enabled, a non-negative base delay and \<open>Math.random()\<close> in
  \<open>[0, 1)\<close>: when the operation fails exactly \<open>k < maxRetries\<close> times with retryable
  classifications and then succeeds, \<open>executeWithRetry\<close> returns the operation's value after
  exactly \<open>k + 1\<close> attempts; it has slept \<open>k\<close> times, the delay after attempt \<open>i\<close> being
  \<open>min (maxDelay, baseDelay * 2^i + jitter)\<close> with the jitter between 0 and 10% of the
  exponential term; and the sequence of delays is non-decreasing.
\<close>

theorem executeWithRetry_backoff:
  assumes "exponentialBackoff config" and "0 \<le> baseDelay config"
    and "\<forall>i. 0 \<le> random env i \<and> random env i < 1"
    and "int k < maxRetries config"
    and "\<forall>i<k. fails_retryable env i" and "operation env k = Inr v"
  shows "fst (executeWithRetry config env elog) = Returned v
       \<and> attempts (snd (executeWithRetry config env elog)) = k + 1
       \<and> length (delays (snd (executeWithRetry config env elog))) = k
       \<and> (\<forall>i<k. delays (snd (executeWithRetry config env elog)) ! i
              = min (maxDelay config)
                  (baseDelay config * 2 ^ i + random env i * 0.1 * (baseDelay config * 2 ^ i))
            \<and> 0 \<le> random env i * 0.1 * (baseDelay config * 2 ^ i)
            \<and> random env i * 0.1 * (baseDelay config * 2 ^ i) \<le> 0.1 * (baseDelay config * 2 ^ i))
       \<and> sorted (delays (snd (executeWithRetry config env elog)))"
proof -
  have k: "int k \<le> maxRetries config" using assms(4) by simp
  note fs = executeWithRetry_first_success [OF assms(5,6) k, of elog]
  have d: "delays (snd (executeWithRetry config env elog))
      = map (\<lambda>i. calculateDelay (random env i) i config) [0..<k]"
    using fs by simp
  have nth: "\<forall>i<k. delays (snd (executeWithRetry config env elog)) ! i
              = min (maxDelay config)
                  (baseDelay config * 2 ^ i + random env i * 0.1 * (baseDelay config * 2 ^ i))"
    unfolding d using calculateDelay_backoff [OF assms(1)] by simp
  have jb: "\<forall>i<k. 0 \<le> random env i * 0.1 * (baseDelay config * 2 ^ i)
            \<and> random env i * 0.1 * (baseDelay config * 2 ^ i) \<le> 0.1 * (baseDelay config * 2 ^ i)"
    using jitter_bounds [OF assms(2)] assms(3) by blast
  have s: "sorted (delays (snd (executeWithRetry config env elog)))"
    unfolding d by (rule sorted_delays [OF assms(1,2,3)])
  have l: "length (delays (snd (executeWithRetry config env elog))) = k"
    unfolding d by simp
  from fs nth jb s l show ?thesis by blast
qed

theorem executeWithRetry_backoff_witness:
  "fst (executeWithRetry retryConfig demo_env []) = Returned 7
   \<and> attempts (snd (executeWithRetry retryConfig demo_env [])) = 3
   \<and> length (delays (snd (executeWithRetry retryConfig demo_env []))) = 2
   \<and> sorted (delays (snd (executeWithRetry retryConfig demo_env [])))"
proof -
  have h1: "exponentialBackoff retryConfig" and h2: "0 \<le> baseDelay retryConfig"
    and h4: "int 2 < maxRetries retryConfig"
    by (simp_all add: retryConfig_def)
  have h3: "\<forall>i. 0 \<le> random demo_env i \<and> random demo_env i < 1"
    by (simp add: demo_env_def)
  have h5: "\<forall>i<2. fails_retryable demo_env i"
    by (simp add: demo_env_def fails_retryable_def categorizeError_def mk_def is_network_def)
  have h6: "operation demo_env 2 = Inr 7"
    by (simp add: demo_env_def)
  show ?thesis
    using executeWithRetry_backoff [OF h1 h2 h3 h4 h5 h6, of "[]"] by simp
qed

text \<open>
  C2.  For a retry configuration with \<open>maxRetries \<ge> 0\<close>: when every attempt fails with a
  retryable classification, \<open>executeWithRetry\<close> calls the operation exactly
  \<open>maxRetries + 1\<close> times and then throws the last error, enhanced with its classification;
  when the first attempt fails with a classification that is not retryable, it calls the
  operation exactly once and throws, without sleeping; and when attempt \<open>k\<close> is the first
  one to succeed, it returns that value after \<open>k + 1\<close> calls and \<open>k\<close> delays: nothing is
  attempted and nothing is slept after the success.
\<close>

theorem executeWithRetry_attempt_count:
  assumes "0 \<le> maxRetries config"
  shows "((\<forall>i. int i \<le> maxRetries config \<longrightarrow> fails_retryable env i) \<longrightarrow>
            (\<exists>e. operation env (nat (maxRetries config)) = Inl e
               \<and> fst (executeWithRetry config env elog)
                   = Thrown (enhanceError e
                       (categorizeError (clock env (nat (maxRetries config))) e (context_arg env))))
            \<and> int (attempts (snd (executeWithRetry config env elog))) = maxRetries config + 1)
       \<and> (fails_final env 0 \<longrightarrow>
            is_thrown (fst (executeWithRetry config env elog))
            \<and> attempts (snd (executeWithRetry config env elog)) = 1
            \<and> delays (snd (executeWithRetry config env elog)) = [])
       \<and> ((\<forall>i<k. fails_retryable env i) \<and> operation env k = Inr v \<and> int k \<le> maxRetries config \<longrightarrow>
            fst (executeWithRetry config env elog) = Returned v
            \<and> attempts (snd (executeWithRetry config env elog)) = k + 1
            \<and> length (delays (snd (executeWithRetry config env elog))) = k)"
proof (intro conjI impI)
  assume a: "\<forall>i. int i \<le> maxRetries config \<longrightarrow> fails_retryable env i"
  show "\<exists>e. operation env (nat (maxRetries config)) = Inl e
               \<and> fst (executeWithRetry config env elog)
                   = Thrown (enhanceError e
                       (categorizeError (clock env (nat (maxRetries config))) e (context_arg env)))"
    using executeWithRetry_exhausted [OF a assms, of elog] by blast
  show "int (attempts (snd (executeWithRetry config env elog))) = maxRetries config + 1"
    using executeWithRetry_exhausted [OF a assms, of elog] by blast
next
  assume f: "fails_final env 0"
  show "is_thrown (fst (executeWithRetry config env elog))"
    and "attempts (snd (executeWithRetry config env elog)) = 1"
    and "delays (snd (executeWithRetry config env elog)) = []"
    using executeWithRetry_final_first [OF f assms, of elog] by blast+
next
  assume s: "(\<forall>i<k. fails_retryable env i) \<and> operation env k = Inr v \<and> int k \<le> maxRetries config"
  then have fs: "fst (executeWithRetry config env elog) = Returned v
       \<and> attempts (snd (executeWithRetry config env elog)) = k + 1
       \<and> delays (snd (executeWithRetry config env elog))
           = map (\<lambda>i. calculateDelay (random env i) i config) [0..<k]"
    using executeWithRetry_first_success [of k env v config elog] by blast
  show "fst (executeWithRetry config env elog) = Returned v"
    and "attempts (snd (executeWithRetry config env elog)) = k + 1"
    and "length (delays (snd (executeWithRetry config env elog))) = k"
    using fs by simp_all
qed

theorem executeWithRetry_attempt_count_witness:
  "int (attempts (snd (executeWithRetry retryConfig demo_env_down []))) = 4
   \<and> is_thrown (fst (executeWithRetry retryConfig demo_env_invalid []))
   \<and> attempts (snd (executeWithRetry retryConfig demo_env_invalid [])) = 1
   \<and> fst (executeWithRetry retryConfig demo_env []) = Returned 7
   \<and> attempts (snd (executeWithRetry retryConfig demo_env [])) = 3"
proof -
  have m: "0 \<le> maxRetries retryConfig" and m3: "maxRetries retryConfig = 3"
    by (simp_all add: retryConfig_def)
  have down: "\<forall>i. int i \<le> maxRetries retryConfig \<longrightarrow> fails_retryable demo_env_down i"
    by (simp add: demo_env_down_def fails_retryable_def categorizeError_def mk_def is_network_def)
  have inv: "fails_final demo_env_invalid 0"
    by (simp add: demo_env_invalid_def fails_final_def categorizeError_def mk_def is_network_def
        is_rate_limit_def is_auth_def is_timeout_def is_unavailable_def is_content_policy_def
        is_validation_def)
  have ok: "(\<forall>i<2. fails_retryable demo_env i) \<and> operation demo_env 2 = Inr 7
      \<and> int 2 \<le> maxRetries retryConfig"
    by (simp add: m3 demo_env_def fails_retryable_def categorizeError_def mk_def is_network_def)
  have 1: "int (attempts (snd (executeWithRetry retryConfig demo_env_down []))) = 4"
    using executeWithRetry_attempt_count [OF m, of demo_env_down "[]"] down m3 by simp
  have 2: "is_thrown (fst (executeWithRetry retryConfig demo_env_invalid []))
      \<and> attempts (snd (executeWithRetry retryConfig demo_env_invalid [])) = 1"
    using executeWithRetry_attempt_count [OF m, of demo_env_invalid "[]"] inv by blast
  have 3: "fst (executeWithRetry retryConfig demo_env []) = Returned 7
      \<and> attempts (snd (executeWithRetry retryConfig demo_env [])) = 3"
    using executeWithRetry_attempt_count [OF m, of demo_env "[]" 2 7] ok by simp
  from 1 2 3 show ?thesis by blast
qed


text \<open>Outside the hypothesis of C2: with a negative \<open>maxRetries\<close> the loop body never runs,
  the operation is not called and \<open>throw lastError\<close> throws \<open>null\<close>.\<close>

lemma executeWithRetry_negative:
  "maxRetries config < 0 \<Longrightarrow>
   executeWithRetry config env elog = (ThrownLast None, \<lparr> attempts = 0, delays = [], errorLog = elog \<rparr>)"
  unfolding executeWithRetry_def by (subst retry_loop.simps) simp

section \<open>Properties of the provider order and of the route\<close>

text \<open>
  C4.  \<open>getProviderFallbackOrder\<close> returns a reordering of the default provider list without
  duplicates.  If the preferred name is in the default list it is at position 0 and the
  other providers follow in their default relative order; if it is not in the list, or is
  \<open>auto\<close>, the default order is returned unchanged.
\<close>

theorem getProviderFallbackOrder_order:
  "distinct (getProviderFallbackOrder p)
   \<and> set (getProviderFallbackOrder p) = set availableProviders
   \<and> length (getProviderFallbackOrder p) = length availableProviders
   \<and> (p \<in> set availableProviders \<longrightarrow>
        getProviderFallbackOrder p ! 0 = p
        \<and> filter (\<lambda>q. q \<noteq> p) (getProviderFallbackOrder p) = filter (\<lambda>q. q \<noteq> p) availableProviders)
   \<and> (p \<notin> set availableProviders \<or> p = ''auto'' \<longrightarrow> getProviderFallbackOrder p = availableProviders)"
  by (auto simp: getProviderFallbackOrder_def availableProviders_def)

theorem getProviderFallbackOrder_order_witness:
  "''elevenlabs'' \<in> set availableProviders
   \<and> getProviderFallbackOrder ''elevenlabs'' = [''elevenlabs'', ''azure'']
   \<and> ''polly'' \<notin> set availableProviders
   \<and> getProviderFallbackOrder ''polly'' = [''azure'', ''elevenlabs'']
   \<and> getProviderFallbackOrder ''auto'' = [''azure'', ''elevenlabs'']"
proof -
  have a: "''elevenlabs'' \<in> set availableProviders" and b: "''polly'' \<notin> set availableProviders"
    and d: "availableProviders = [''azure'', ''elevenlabs'']"
    by (simp_all add: availableProviders_def)
  have 1: "getProviderFallbackOrder ''elevenlabs'' ! 0 = ''elevenlabs''
      \<and> filter (\<lambda>q. q \<noteq> ''elevenlabs'') (getProviderFallbackOrder ''elevenlabs'')
          = filter (\<lambda>q. q \<noteq> ''elevenlabs'') availableProviders
      \<and> length (getProviderFallbackOrder ''elevenlabs'') = length availableProviders"
    using getProviderFallbackOrder_order [of "''elevenlabs''"] a by blast
  have 2: "getProviderFallbackOrder ''polly'' = availableProviders"
    using getProviderFallbackOrder_order [of "''polly''"] b by blast
  have 3: "getProviderFallbackOrder ''auto'' = availableProviders"
    using getProviderFallbackOrder_order [of "''auto''"] by blast
  have 4: "getProviderFallbackOrder ''elevenlabs'' = [''elevenlabs'', ''azure'']"
    by (simp add: getProviderFallbackOrder_def d)
  from a b 1 2 3 4 d show ?thesis by simp
qed

text \<open>
  C10 (as the source has it).  For every request whose \<open>speed\<close>, \<open>voiceStability\<close> and
  \<open>voiceSimilarity\<close> are numbers or are left out (the defaults are 1.0, 0.5 and 0.75), the
  options the route hands to the engine have \<open>speed\<close> in \<open>[0.8, 1.2]\<close>,
  \<open>voiceStability\<close> in \<open>[0.5, 0.9]\<close> and \<open>voiceSimilarity\<close> in \<open>[0.7, 0.95]\<close>: a value
  below the range is replaced by the lower bound, a value above it by the upper bound, a
  value inside it is kept, and no request is rejected for them.  The configuration that
  \<open>generateAudio\<close> builds from these options keeps the three values.
\<close>

theorem ttsOptions_clamped:
  "(is_number (get_or (Num 1.0) (speed_in b)) \<longrightarrow>
      clamped 0.8 1.2 (get_or (Num 1.0) (speed_in b)) (speed (ttsOptions b)))
   \<and> (is_number (get_or (Num 0.5) (voiceStability_in b)) \<longrightarrow>
      clamped 0.5 0.9 (get_or (Num 0.5) (voiceStability_in b)) (voiceStability (ttsOptions b)))
   \<and> (is_number (get_or (Num 0.75) (voiceSimilarity_in b)) \<longrightarrow>
      clamped 0.7 0.95 (get_or (Num 0.75) (voiceSimilarity_in b)) (voiceSimilarity (ttsOptions b)))
   \<and> speed (generateAudio_config (ttsOptions b)) = speed (ttsOptions b)
   \<and> voiceStability (generateAudio_config (ttsOptions b)) = voiceStability (ttsOptions b)
   \<and> voiceSimilarity (generateAudio_config (ttsOptions b)) = voiceSimilarity (ttsOptions b)"
proof -
  have c: "is_number v \<Longrightarrow> lo \<le> hi \<Longrightarrow>
      clamped lo hi v (Some (Math_max (Num lo) (Math_min (Num hi) v)))" for v lo hi
    by (cases v) (auto simp: clamped_def is_number_def)
  show ?thesis
    using c [of "get_or (Num 1.0) (speed_in b)" "0.8" "1.2"]
      c [of "get_or (Num 0.5) (voiceStability_in b)" "0.5" "0.9"]
      c [of "get_or (Num 0.75) (voiceSimilarity_in b)" "0.7" "0.95"]
    by (simp add: ttsOptions_def Let_def generateAudio_config_def or_default_def get_or_def)
qed

theorem ttsOptions_clamped_witness:
  "is_number (get_or (Num 1.0) (speed_in demo_body))
   \<and> speed (ttsOptions demo_body) = Some (Num 1.2)
   \<and> voiceStability (ttsOptions demo_body) = Some (Num 0.5)
   \<and> voiceSimilarity (ttsOptions demo_body) = Some (Num 0.75)"
proof -
  have h: "is_number (get_or (Num 1.0) (speed_in demo_body))"
    "is_number (get_or (Num 0.5) (voiceStability_in demo_body))"
    "is_number (get_or (Num 0.75) (voiceSimilarity_in demo_body))"
    by (simp_all add: demo_body_def get_or_def is_number_def)
  have v: "get_or (Num 1.0) (speed_in demo_body) = Num 5"
    "get_or (Num 0.5) (voiceStability_in demo_body) = Num 0.1"
    "get_or (Num 0.75) (voiceSimilarity_in demo_body) = Num 0.75"
    by (simp_all add: demo_body_def get_or_def)
  show ?thesis
    using ttsOptions_clamped [of demo_body] h unfolding v
    by (auto simp: clamped_def split: option.splits jsnum.splits)
qed

text \<open>
  C10 as the spec words it fails: a request whose \<open>speed\<close> is not a number is not
  rejected, and the speed handed to the engine is \<open>NaN\<close>, which is not in \<open>[0.8, 1.2]\<close>.
\<close>

theorem ttsOptions_nan_counterexample:
  "speed (ttsOptions demo_body_nan) = Some NaN
   \<and> \<not> in_range 0.8 1.2 (speed (ttsOptions demo_body_nan))
   \<and> speed (generateAudio_config (ttsOptions demo_body_nan)) = Some NaN"
  by (simp add: ttsOptions_def demo_body_nan_def demo_body_def Let_def get_or_def in_range_def
      generateAudio_config_def or_default_def)

section \<open>Properties of the synthesis pipeline\<close>

declare elevenlabs_loop.simps [simp del]

lemma interleave_length:
  "length as = length cs \<Longrightarrow> length (interleave cs as) = 2 * length cs - 1"
  by (induction cs as rule: interleave.induct) auto

lemma elevenlabs_loop_all:
  assumes "\<forall>j<length cs. el_generate env j (cs ! j) = Inr (audio j)" and "i \<le> length cs"
  shows "elevenlabs_loop env cs i bufs 
     = Inr (bufs @ interleave (drop i cs) (map audio [i..<length cs]))"
  using assms
proof (induction "length cs - i" arbitrary: i bufs)
  case 0
  then have "i = length cs" by simp
  then show ?case by (subst elevenlabs_loop.simps) simp
next
  case (Suc n)
  then have lt: "i < length cs" by simp
  have g: "el_generate env i (cs ! i) = Inr (audio i)" using Suc.prems(1) lt by simp
  have n: "n = length cs - Suc i" using Suc.hyps(2) by simp
  have dr: "drop i cs = cs ! i # drop (Suc i) cs" using lt by (simp add: Cons_nth_drop_Suc)
  have up: "[i..<length cs] = i # [Suc i..<length cs]" using lt by (simp add: upt_conv_Cons)
  show ?case
  proof (cases "Suc i < length cs")
    case True
    then have dr2: "drop (Suc i) cs = cs ! Suc i # drop (Suc (Suc i)) cs"
      by (simp add: Cons_nth_drop_Suc)
    have up2: "[Suc i..<length cs] = Suc i # [Suc (Suc i)..<length cs]"
      using True by (simp add: upt_conv_Cons)
    have "elevenlabs_loop env cs i bufs
        = elevenlabs_loop env cs (Suc i) (bufs @ [audio i] @ [generateNaturalPause (cs ! i)])"
      using lt g True by (subst elevenlabs_loop.simps) (simp add: Let_def)
    also have "\<dots> = Inr ((bufs @ [audio i] @ [generateNaturalPause (cs ! i)])
          @ interleave (drop (Suc i) cs) (map audio [Suc i..<length cs]))"
      using Suc.hyps(1) [OF n Suc.prems(1)] True by simp
    finally show ?thesis by (simp add: dr up dr2 up2)
  next
    case False
    then have last: "Suc i = length cs" using lt by simp
    have "elevenlabs_loop env cs i bufs = elevenlabs_loop env cs (Suc i) (bufs @ [audio i])"
      using lt g False by (subst elevenlabs_loop.simps) (auto simp: Let_def)
    also have "\<dots> = Inr ((bufs @ [audio i]) @ interleave (drop (Suc i) cs) (map audio [Suc i..<length cs]))"
      using Suc.hyps(1) [OF n Suc.prems(1)] last by simp
    finally show ?thesis using last by (simp add: dr up)
  qed
qed

lemma pause_length:
  "length (generateNaturalPause c) = (if str_includes c ''!'' then 132300 else 70560)"
  by (simp add: generateNaturalPause_def Let_def)


text \<open>
  When the ElevenLabs client is configured, the configuration names a voice and every
  chunk of the script is synthesised, \<open>generateWithElevenLabs\<close> succeeds, and the buffer it
  reassembles is the concatenation, in chunk order, of the chunks' audio with one silence
  buffer between consecutive chunks and none after the last (\<open>2n - 1\<close> segments for \<open>n\<close>
  chunks); the file written is that buffer, passed through the enhancement when the
  options ask for it.
\<close>

lemma generateWithElevenLabs_reassembly:
  assumes "elevenlabs env" and "voice config \<noteq> None"
    and "\<forall>j<length (enhancedChunks_of env script).
           el_generate env j (enhancedChunks_of env script ! j) = Inr (audio j)"
  shows "(\<exists>r. generateWithElevenLabs env script chunks_arg config
            = Inr (r, if enhanceAudio config = Some True
                      then enhanceAudioForRealism env
                             (concat (interleave (enhancedChunks_of env script)
                                (map audio [0..<length (enhancedChunks_of env script)])))
                      else concat (interleave (enhancedChunks_of env script)
                                (map audio [0..<length (enhancedChunks_of env script)])))
            \<and> success r)
       \<and> length (interleave (enhancedChunks_of env script)
                   (map audio [0..<length (enhancedChunks_of env script)]))
           = 2 * length (enhancedChunks_of env script) - 1"
proof -
  let ?cs = "enhancedChunks_of env script"
  have loop: "elevenlabs_loop env ?cs 0 [] = Inr (interleave ?cs (map audio [0..<length ?cs]))"
    using elevenlabs_loop_all [OF assms(3), of 0 "[]"] by simp
  have a: "\<exists>r. generateWithElevenLabs env script chunks_arg config
            = Inr (r, if enhanceAudio config = Some True
                      then enhanceAudioForRealism env
                             (concat (interleave ?cs (map audio [0..<length ?cs])))
                      else concat (interleave ?cs (map audio [0..<length ?cs])))
            \<and> success r"
    using assms(1,2) loop
    by (simp add: generateWithElevenLabs_def Let_def enhancedChunks_of_def)
  have b: "length (interleave ?cs (map audio [0..<length ?cs])) = 2 * length ?cs - 1"
    by (simp add: interleave_length)
  from a b show ?thesis by blast
qed

text \<open>
  The Azure path makes one request per chunk and joins the answers: as many segments as
  chunks, and no silence between them.
\<close>

lemma azure_loop_all:
  assumes "\<forall>j<length cs. azure_fetch env (i + j) (cs ! j) = Inr (audio (i + j))"
  shows "azure_loop env i cs bufs = Inr (bufs @ map audio [i..<i + length cs])"
  using assms
proof (induction cs arbitrary: i bufs)
  case Nil
  then show ?case by simp
next
  case (Cons c cs)
  have h: "azure_fetch env i c = Inr (audio i)" using Cons.prems by fastforce
  have r: "\<forall>j<length cs. azure_fetch env (Suc i + j) (cs ! j) = Inr (audio (Suc i + j))"
  proof (intro allI impI)
    fix j assume "j < length cs"
    then have "azure_fetch env (i + Suc j) ((c # cs) ! Suc j) = Inr (audio (i + Suc j))"
      using Cons.prems by (metis Suc_less_eq length_Cons)
    then show "azure_fetch env (Suc i + j) (cs ! j) = Inr (audio (Suc i + j))" by simp
  qed
  have "[i..<Suc (i + length cs)] = i # [Suc i..<Suc (i + length cs)]"
    by (rule upt_conv_Cons) simp
  then have u: "[i..<i + length (c # cs)] = i # [Suc i..<Suc i + length cs]"
    by simp
  have "azure_loop env i (c # cs) bufs = azure_loop env (Suc i) cs (bufs @ [audio i])"
    by (simp add: h)
  also have "\<dots> = Inr ((bufs @ [audio i]) @ map audio [Suc i..<Suc i + length cs])"
    by (rule Cons.IH [OF r])
  finally show ?case unfolding u by simp
qed

lemma generateWithAzure_no_silence:
  assumes "truthy (AZURE_SPEECH_KEY env)"
    and "\<forall>j<length cs. azure_fetch env j (cs ! j) = Inr (audio j)"
  shows "\<exists>r. generateWithAzure env script cs config
            = Inr (r, if enhanceAudio config = Some True
                      then enhanceAudioForRealism env (concat (map audio [0..<length cs]))
                      else concat (map audio [0..<length cs]))
            \<and> success r"
  using assms(1) azure_loop_all [of cs env 0 audio "[]"] assms(2)
  by (simp add: generateWithAzure_def Let_def)

declare match_sentences.simps [simp del] split_terms.simps [simp del]
















lemma splitScript_Hi: "splitScript ''Hi.'' 4000 = [''Hi.'']"
  by (simp add: splitScript_def match_sentences.simps is_term_def is_space_def trim_def)




lemma provider_loop_all_failed:
  assumes "all_skipped_or_failed env s cs config ps"
  shows "provider_loop env s cs config ps le
     = Inl (if failures env s cs config ps = [] then le
            else Some (last (failures env s cs config ps)))"
  using assms
proof (induction ps arbitrary: le)
  case Nil
  then show ?case by (simp add: failures_def)
next
  case (Cons p ps)
  have rest: "all_skipped_or_failed env s cs config ps"
    using Cons.prems by (simp add: all_skipped_or_failed_def)
  show ?case
  proof (cases "isProviderAvailable env p")
    case False
    then show ?thesis using Cons.IH [OF rest] by (simp add: failures_def)
  next
    case True
    then obtain err where e: "generateWithProvider env s cs p (mapVoiceForProvider config p) = Inl err"
      using Cons.prems by (auto simp: all_skipped_or_failed_def isl_def)
    show ?thesis using True e Cons.IH [OF rest, of "Some err"] by (simp add: failures_def)
  qed
qed

text \<open>
  C6 (as the source has it).  When every provider of the chain is skipped or fails,
  \<open>generateAudio\<close> returns a result with \<open>success = false\<close>, provider and format \<open>none\<close>
  and no file, whose \<open>error\<close> is the message of the last failure caught, or the text
  \<open>All TTS providers failed\<close> when no provider was attempted or that message is empty.
\<close>

theorem generateAudio_all_failed:
  assumes "all_providers_exhausted env script options"
  shows "success (fst (generateAudio env script options)) = False
       \<and> provider' (fst (generateAudio env script options)) = ''none''
       \<and> format (fst (generateAudio env script options)) = ''none''
       \<and> snd (generateAudio env script options) = None
       \<and> error (fst (generateAudio env script options))
           = Some (if generateAudio_failures env script options = []
                      \<or> last (generateAudio_failures env script options) = []
                   then ''All TTS providers failed''
                   else last (generateAudio_failures env script options))"
  using provider_loop_all_failed [OF assms [unfolded all_providers_exhausted_def], of None]
  by (simp add: generateAudio_def generateAudio_failures_def Let_def or_else_def get_or_def)

lemma demo_denied_providers:
  "getProviderFallbackOrder (get_or ''azure'' (provider demo_options)) = [''azure'', ''elevenlabs'']"
  by (simp add: getProviderFallbackOrder_def availableProviders_def get_or_def demo_options_def)

lemma demo_denied_attempt:
  "generateWithProvider demo_tts_denied ''Hi.'' [''Hi.''] ''azure''
     (mapVoiceForProvider (generateAudio_config demo_options) ''azure'')
   = Inl ''Azure TTS API error: 401 - denied''"
  by (simp add: generateWithProvider_def generateWithAzure_def demo_tts_denied_def demo_tts_def
      truthy_def)

lemma demo_denied_available:
  "isProviderAvailable demo_tts_denied ''azure'' \<and> \<not> isProviderAvailable demo_tts_denied ''elevenlabs''"
  by (simp add: isProviderAvailable_def demo_tts_denied_def demo_tts_def truthy_def)

lemma demo_denied_exhausted: "all_providers_exhausted demo_tts_denied ''Hi.'' demo_options"
proof -
  have e: "enhanceScriptForRealism demo_tts_denied ''Hi.'' = ''Hi.''"
    by (simp add: demo_tts_denied_def demo_tts_def)
  show ?thesis
    unfolding all_providers_exhausted_def e splitScript_Hi demo_denied_providers
    using demo_denied_attempt demo_denied_available
    by (simp add: all_skipped_or_failed_def)
qed

lemma demo_denied_failures:
  "generateAudio_failures demo_tts_denied ''Hi.'' demo_options = [''Azure TTS API error: 401 - denied'']"
proof -
  have e: "enhanceScriptForRealism demo_tts_denied ''Hi.'' = ''Hi.''"
    by (simp add: demo_tts_denied_def demo_tts_def)
  show ?thesis
    unfolding generateAudio_failures_def e splitScript_Hi demo_denied_providers
    using demo_denied_attempt demo_denied_available
    by (simp add: failures_def)
qed

theorem generateAudio_all_failed_witness:
  "all_providers_exhausted demo_tts_denied ''Hi.'' demo_options
   \<and> success (fst (generateAudio demo_tts_denied ''Hi.'' demo_options)) = False
   \<and> error (fst (generateAudio demo_tts_denied ''Hi.'' demo_options))
       = Some ''Azure TTS API error: 401 - denied''"
  using generateAudio_all_failed [OF demo_denied_exhausted] demo_denied_exhausted
  by (simp add: demo_denied_failures)

text \<open>
  C6 as the spec words it fails: with Azure rejecting the key and ElevenLabs not
  configured, every provider is skipped or exhausted; the last failure is classified
  AUTH_ERROR, and the error of the result is the bare message of that failure, which shows
  neither the code, nor the attempted provider, nor the suggestion.
\<close>

theorem generateAudio_failure_report_counterexample:
  "all_providers_exhausted demo_tts_denied ''Hi.'' demo_options
   \<and> code (categorizeError ''t0'' (Error ''Azure TTS API error: 401 - denied'' None) Map.empty
        :: unit ErrorInfo) = ''AUTH_ERROR''
   \<and> \<not> carries_failure_report (fst (generateAudio demo_tts_denied ''Hi.'' demo_options))
        (categorizeError ''t0'' (Error ''Azure TTS API error: 401 - denied'' None) Map.empty
          :: unit ErrorInfo) [''azure'']"
proof -
  have c: "(categorizeError ''t0'' (Error ''Azure TTS API error: 401 - denied'' None) Map.empty
        :: unit ErrorInfo) = mk ''t0'' (Error ''Azure TTS API error: 401 - denied'' None) Map.empty
          ''AUTH_ERROR'' ''Authentication failed'' high ''Check API keys and credentials'' False"
    by (simp add: categorizeError_def is_network_def is_rate_limit_def is_auth_def)
  have l: "provider_loop demo_tts_denied ''Hi.'' [''Hi.''] (generateAudio_config demo_options)
      [''azure'', ''elevenlabs''] None = Inl (Some ''Azure TTS API error: 401 - denied'')"
    using demo_denied_attempt demo_denied_available by simp
  have e: "enhanceScriptForRealism demo_tts_denied ''Hi.'' = ''Hi.''"
    by (simp add: demo_tts_denied_def demo_tts_def)
  have r: "error (fst (generateAudio demo_tts_denied ''Hi.'' demo_options))
      = Some ''Azure TTS API error: 401 - denied''"
    unfolding generateAudio_def e Let_def splitScript_Hi demo_denied_providers l
    by (simp add: or_else_def get_or_def)
  show ?thesis
    using demo_denied_exhausted
    by (simp add: c r mk_def carries_failure_report_def)
qed



section \<open>Properties of the chunk planner\<close>

lemma term_not_space: "is_term c \<Longrightarrow> \<not> is_space c"
  by (auto simp: is_term_def is_space_def)

lemma filter_dropWhile_irrelevant:
  assumes "\<And>x. Q x \<Longrightarrow> \<not> P x"
  shows "filter P (dropWhile Q xs) = filter P xs"
  using assms by (induction xs) auto

lemma strip_ws_trim: "strip_ws (trim x) = strip_ws x"
  by (simp add: strip_ws_def trim_def filter_dropWhile_irrelevant flip: rev_filter)

lemma strip_ws_terms_trim: "strip_ws_terms (trim x) = strip_ws_terms x"
  by (simp add: strip_ws_terms_def trim_def filter_dropWhile_irrelevant flip: rev_filter)

lemma strip_ws_append: "strip_ws (a @ b) = strip_ws a @ strip_ws b"
  by (simp add: strip_ws_def)

lemma strip_ws_terms_append: "strip_ws_terms (a @ b) = strip_ws_terms a @ strip_ws_terms b"
  by (simp add: strip_ws_terms_def)

lemma strip_ws_space_Cons: "strip_ws (CHR '' '' # x) = strip_ws x"
  by (simp add: strip_ws_def is_space_def)

lemma strip_ws_terms_sep: "strip_ws_terms ''. '' = []"
  by (simp add: strip_ws_terms_def is_space_def is_term_def)

lemma dropWhile_all_iff: "(\<forall>c\<in>set (dropWhile P xs). P c) \<longleftrightarrow> (\<forall>c\<in>set xs. P c)"
  by (induction xs) auto

lemma trim_empty_iff: "trim x = [] \<longleftrightarrow> (\<forall>c\<in>set x. is_space c)"
  by (simp add: trim_def dropWhile_eq_Nil_conv dropWhile_all_iff)

lemma trim_empty_strip_ws: "trim x = [] \<Longrightarrow> strip_ws x = []"
  by (simp add: trim_empty_iff strip_ws_def)

lemma trim_empty_strip_ws_terms: "trim x = [] \<Longrightarrow> strip_ws_terms x = []"
  by (simp add: trim_empty_iff strip_ws_terms_def)

lemma strip_ws_concat: "strip_ws (concat xs) = concat (map strip_ws xs)"
  by (induction xs) (simp_all add: strip_ws_append, simp add: strip_ws_def)

lemma strip_ws_terms_concat: "strip_ws_terms (concat xs) = concat (map strip_ws_terms xs)"
  by (induction xs) (simp_all add: strip_ws_terms_append, simp add: strip_ws_terms_def)

lemma strip_ws_Nil [simp]: "strip_ws [] = []"
  by (simp add: strip_ws_def)

lemma strip_ws_terms_Nil [simp]: "strip_ws_terms [] = []"
  by (simp add: strip_ws_terms_def)

lemma total_length_snoc: "total_length (g @ [x]) = total_length g + length x"
  by (simp add: total_length_def)

lemma fine_loop_filter:
  "splitEnhancedScript_loop ss st
     = splitEnhancedScript_loop (filter (\<lambda>sentence. trim sentence \<noteq> []) ss) st"
proof (induction ss arbitrary: st)
  case Nil
  then show ?case by simp
next
  case (Cons x ss)
  obtain cks cur where st: "st = (cks, cur)" by (cases st)
  show ?case unfolding st using Cons.IH by simp
qed

lemma fine_inv_close:
  assumes "fine_inv cks cur groups g" and "x \<noteq> []" and "cur \<noteq> []"
  shows "fine_inv (cks @ [trim cur]) x (groups @ [g]) [x]"
  using assms
  by (simp add: fine_inv_def strip_ws_terms_trim total_length_def within_limit_def)

lemma fine_inv_first:
  assumes "fine_inv cks cur groups g" and "x \<noteq> []" and "cur = []"
  shows "fine_inv cks x groups [x]"
  using assms
  by (simp add: fine_inv_def total_length_def within_limit_def)

lemma fine_inv_extend:
  assumes "fine_inv cks cur groups g" and "x \<noteq> []" and "length cur + length x \<le> 500"
  shows "fine_inv cks (cur @ (if cur \<noteq> [] then ''. '' else []) @ x) groups (g @ [x])"
proof -
  have t: "total_length g \<le> length cur" using assms(1) by (simp add: fine_inv_def)
  have s: "strip_ws_terms (cur @ (if cur \<noteq> [] then ''. '' else []) @ x)
      = strip_ws_terms (concat (g @ [x]))"
    using assms(1) by (simp add: fine_inv_def strip_ws_terms_append strip_ws_terms_sep)
  have l: "within_limit 500 (g @ [x])"
    using t assms(3) by (simp add: within_limit_def total_length_snoc)
  have n: "total_length (g @ [x]) \<le> length (cur @ (if cur \<noteq> [] then ''. '' else []) @ x)"
    using t by (simp add: total_length_snoc)
  show ?thesis
    using assms(1,2) s l n by (simp add: fine_inv_def)
qed

lemma fine_loop_inv:
  assumes "fine_inv cks cur groups g" and "\<forall>x\<in>set ss. x \<noteq> [] \<and> trim x \<noteq> []"
  shows "\<exists>groups' g'.
           fine_inv (fst (splitEnhancedScript_loop ss (cks, cur)))
                    (snd (splitEnhancedScript_loop ss (cks, cur))) groups' g'
           \<and> concat groups' @ g' = concat groups @ g @ ss"
  using assms
proof (induction ss arbitrary: cks cur groups g)
  case Nil
  then show ?case by auto
next
  case (Cons x ss)
  have x: "x \<noteq> []" and tx: "trim x \<noteq> []" and rest: "\<forall>y\<in>set ss. y \<noteq> [] \<and> trim y \<noteq> []"
    using Cons.prems(2) by simp_all
  have cg: "cur \<noteq> [] \<longleftrightarrow> g \<noteq> []" using Cons.prems(1) by (simp add: fine_inv_def)
  show ?case
  proof (cases "length cur + length x > 500")
    case over: True
    show ?thesis
    proof (cases "cur \<noteq> []")
      case True
      have step: "splitEnhancedScript_loop (x # ss) (cks, cur)
          = splitEnhancedScript_loop ss (cks @ [trim cur], x)"
        using tx over True by simp
      obtain groups' g' where
        i: "fine_inv (fst (splitEnhancedScript_loop ss (cks @ [trim cur], x)))
              (snd (splitEnhancedScript_loop ss (cks @ [trim cur], x))) groups' g'"
        and c: "concat groups' @ g' = concat (groups @ [g]) @ [x] @ ss"
        using Cons.IH [OF fine_inv_close [OF Cons.prems(1) x True] rest] by blast
      show ?thesis unfolding step using i c by (intro exI [of _ groups'] exI [of _ g']) simp
    next
      case False
      then have e: "cur = []" by simp
      have step: "splitEnhancedScript_loop (x # ss) (cks, cur)
          = splitEnhancedScript_loop ss (cks, x)"
        using tx over e by simp
      obtain groups' g' where
        i: "fine_inv (fst (splitEnhancedScript_loop ss (cks, x)))
              (snd (splitEnhancedScript_loop ss (cks, x))) groups' g'"
        and c: "concat groups' @ g' = concat groups @ [x] @ ss"
        using Cons.IH [OF fine_inv_first [OF Cons.prems(1) x e] rest] by blast
      have "g = []" using cg e by simp
      then show ?thesis unfolding step using i c by (intro exI [of _ groups'] exI [of _ g']) simp
    qed
  next
    case False
    then have le: "length cur + length x \<le> 500" by simp
    let ?cur = "cur @ (if cur \<noteq> [] then ''. '' else []) @ x"
    have step: "splitEnhancedScript_loop (x # ss) (cks, cur)
        = splitEnhancedScript_loop ss (cks, ?cur)"
      using tx False by simp
    obtain groups' g' where
      i: "fine_inv (fst (splitEnhancedScript_loop ss (cks, ?cur)))
            (snd (splitEnhancedScript_loop ss (cks, ?cur))) groups' g'"
      and c: "concat groups' @ g' = concat groups @ (g @ [x]) @ ss"
      using Cons.IH [OF fine_inv_extend [OF Cons.prems(1) x le] rest] by blast
    show ?thesis unfolding step using i c by (intro exI [of _ groups'] exI [of _ g']) simp
  qed
qed

lemma fine_groups:
  "\<exists>groups. concat groups = fine_sentences s
     \<and> map strip_ws_terms (splitEnhancedScript s) = map (\<lambda>h. strip_ws_terms (concat h)) groups
     \<and> list_all (within_limit 500) groups"
proof -
  let ?ss = "fine_sentences s"
  have f: "splitEnhancedScript_loop (split_terms s) ([], []) = splitEnhancedScript_loop ?ss ([], [])"
    unfolding fine_sentences_def by (rule fine_loop_filter)
  have i0: "fine_inv [] [] [] []" by (simp add: fine_inv_def total_length_def)
  have ne: "\<forall>x\<in>set ?ss. x \<noteq> [] \<and> trim x \<noteq> []"
    by (auto simp: fine_sentences_def trim_def)
  obtain groups g where
    i: "fine_inv (fst (splitEnhancedScript_loop ?ss ([], [])))
          (snd (splitEnhancedScript_loop ?ss ([], []))) groups g"
    and c: "concat groups @ g = ?ss"
    using fine_loop_inv [OF i0 ne] by auto
  obtain cks cur where l: "splitEnhancedScript_loop ?ss ([], []) = (cks, cur)"
    by (cases "splitEnhancedScript_loop ?ss ([], [])")
  have r: "splitEnhancedScript s = (if cur \<noteq> [] then cks @ [trim cur] else cks)"
    by (simp add: splitEnhancedScript_def f l)
  show ?thesis
  proof (cases "cur \<noteq> []")
    case True
    then have g: "g \<noteq> []" using i l by (simp add: fine_inv_def)
    have "concat (groups @ [g]) = ?ss" using c by simp
    moreover have "map strip_ws_terms (splitEnhancedScript s)
        = map (\<lambda>h. strip_ws_terms (concat h)) (groups @ [g])"
      using i l True by (simp add: r fine_inv_def strip_ws_terms_trim)
    moreover have "list_all (within_limit 500) (groups @ [g])"
      using i l g by (simp add: fine_inv_def)
    ultimately show ?thesis by blast
  next
    case False
    then have g: "g = []" using i l by (simp add: fine_inv_def)
    have "concat groups = ?ss" using c g by simp
    moreover have "map strip_ws_terms (splitEnhancedScript s)
        = map (\<lambda>h. strip_ws_terms (concat h)) groups"
      using i l False by (simp add: r fine_inv_def)
    moreover have "list_all (within_limit 500) groups"
      using i l by (simp add: fine_inv_def)
    ultimately show ?thesis by blast
  qed
qed

lemma split_terms_last:
  "dropWhile (\<lambda>c. \<not> is_term c) s = [] \<Longrightarrow> split_terms s = [s]"
proof -
  assume a: "dropWhile (\<lambda>c. \<not> is_term c) s = []"
  have "takeWhile (\<lambda>c. \<not> is_term c) s @ dropWhile (\<lambda>c. \<not> is_term c) s = s"
    by (rule takeWhile_dropWhile_id)
  then have t: "takeWhile (\<lambda>c. \<not> is_term c) s = s" unfolding a by simp
  show ?thesis
    by (subst split_terms.simps) (simp only: a t Let_def simp_thms if_True)
qed

lemma split_terms_more:
  "dropWhile (\<lambda>c. \<not> is_term c) s \<noteq> [] \<Longrightarrow>
   split_terms s = takeWhile (\<lambda>c. \<not> is_term c) s
      # split_terms (dropWhile is_term (dropWhile (\<lambda>c. \<not> is_term c) s))"
  by (subst split_terms.simps) (simp only: Let_def if_False)

lemma match_sentences_none:
  "dropWhile (\<lambda>c. \<not> is_term c) (dropWhile is_term s) = [] \<Longrightarrow> match_sentences s = []"
  by (subst match_sentences.simps) (simp only: Let_def simp_thms if_True)

lemma match_sentences_more:
  "dropWhile (\<lambda>c. \<not> is_term c) (dropWhile is_term s) \<noteq> [] \<Longrightarrow>
   match_sentences s =
     (takeWhile (\<lambda>c. \<not> is_term c) (dropWhile is_term s)
        @ takeWhile is_term (dropWhile (\<lambda>c. \<not> is_term c) (dropWhile is_term s)))
     # match_sentences (dropWhile is_term (dropWhile (\<lambda>c. \<not> is_term c) (dropWhile is_term s)))"
  by (subst match_sentences.simps) (simp only: Let_def if_False)

lemma strip_ws_terms_dropWhile_term: "strip_ws_terms (dropWhile is_term xs) = strip_ws_terms xs"
  unfolding strip_ws_terms_def by (rule filter_dropWhile_irrelevant) simp

lemma split_terms_roundtrip: "strip_ws_terms (concat (split_terms s)) = strip_ws_terms s"
proof (induction s rule: split_terms.induct)
  case (1 s)
  let ?body = "takeWhile (\<lambda>c. \<not> is_term c) s"
  let ?rest = "dropWhile (\<lambda>c. \<not> is_term c) s"
  show ?case
  proof (cases "?rest = []")
    case True
    show ?thesis unfolding split_terms_last [OF True] by simp
  next
    case False
    have "strip_ws_terms (concat (split_terms s))
        = strip_ws_terms ?body @ strip_ws_terms (concat (split_terms (dropWhile is_term ?rest)))"
      unfolding split_terms_more [OF False] by (simp add: strip_ws_terms_append)
    also have "\<dots> = strip_ws_terms ?body @ strip_ws_terms (dropWhile is_term ?rest)"
      using "1.IH" [OF refl False] by (simp only:)
    also have "\<dots> = strip_ws_terms ?body @ strip_ws_terms ?rest"
      by (simp only: strip_ws_terms_dropWhile_term)
    also have "\<dots> = strip_ws_terms (?body @ ?rest)"
      by (simp only: strip_ws_terms_append)
    also have "\<dots> = strip_ws_terms s"
      by (simp only: takeWhile_dropWhile_id)
    finally show ?thesis .
  qed
qed

lemma strip_ws_terms_drop_blank:
  "strip_ws_terms (concat (filter (\<lambda>x. trim x \<noteq> []) xs)) = strip_ws_terms (concat xs)"
  by (induction xs) (simp_all add: strip_ws_terms_append trim_empty_strip_ws_terms)

lemma strip_ws_terms_concat_concat:
  "concat (map (\<lambda>h. strip_ws_terms (concat h)) groups) = strip_ws_terms (concat (concat groups))"
  by (induction groups) (simp_all add: strip_ws_terms_append)

lemma fine_roundtrip: "strip_ws_terms (concat (splitEnhancedScript s)) = strip_ws_terms s"
proof -
  obtain groups where c: "concat groups = fine_sentences s"
    and m: "map strip_ws_terms (splitEnhancedScript s) = map (\<lambda>h. strip_ws_terms (concat h)) groups"
    using fine_groups [of s] by blast
  have "strip_ws_terms (concat (splitEnhancedScript s))
      = concat (map strip_ws_terms (splitEnhancedScript s))"
    by (rule strip_ws_terms_concat)
  also have "\<dots> = concat (map (\<lambda>h. strip_ws_terms (concat h)) groups)"
    by (simp only: m)
  also have "\<dots> = strip_ws_terms (concat (concat groups))"
    by (rule strip_ws_terms_concat_concat)
  also have "\<dots> = strip_ws_terms (concat (split_terms s))"
    unfolding c fine_sentences_def by (rule strip_ws_terms_drop_blank)
  also have "\<dots> = strip_ws_terms s"
    by (rule split_terms_roundtrip)
  finally show ?thesis .
qed

lemma dropWhile_not_term_hd:
  assumes "dropWhile (\<lambda>c. \<not> is_term c) xs \<noteq> []"
  shows "is_term (hd (dropWhile (\<lambda>c. \<not> is_term c) xs))"
  using assms hd_dropWhile [of "\<lambda>c. \<not> is_term c" xs] by blast

lemma takeWhile_term_nonempty:
  assumes "ys \<noteq> []" and "is_term (hd ys)"
  shows "list_ex is_term (takeWhile is_term ys)"
  using assms by (cases ys) simp_all

lemma match_sentences_have_term: "x \<in> set (match_sentences s) \<Longrightarrow> list_ex is_term x"
proof (induction s rule: match_sentences.induct)
  case (1 s)
  let ?s1 = "dropWhile is_term s"
  let ?rest = "dropWhile (\<lambda>c. \<not> is_term c) ?s1"
  show ?case
  proof (cases "?rest = []")
    case True
    show ?thesis using "1.prems" unfolding match_sentences_none [OF True] by simp
  next
    case False
    have t: "list_ex is_term (takeWhile is_term ?rest)"
      by (rule takeWhile_term_nonempty [OF False dropWhile_not_term_hd [OF False]])
    have "x = takeWhile (\<lambda>c. \<not> is_term c) ?s1 @ takeWhile is_term ?rest
        \<or> x \<in> set (match_sentences (dropWhile is_term ?rest))"
      using "1.prems" unfolding match_sentences_more [OF False] by simp
    then show ?thesis
    proof
      assume "x = takeWhile (\<lambda>c. \<not> is_term c) ?s1 @ takeWhile is_term ?rest"
      then show ?thesis using t by (simp only: list_ex_append) simp
    next
      assume "x \<in> set (match_sentences (dropWhile is_term ?rest))"
      then show ?thesis by (rule "1.IH" [OF refl refl False])
    qed
  qed
qed

lemma has_term_strip_ws: "list_ex is_term x \<Longrightarrow> strip_ws x \<noteq> []"
  using term_not_space by (auto simp: list_ex_iff strip_ws_def filter_empty_conv)

lemma dropWhile_term_id: "s \<noteq> [] \<Longrightarrow> \<not> is_term (hd s) \<Longrightarrow> dropWhile is_term s = s"
  by (cases s) simp_all

lemma match_sentences_no_term: "\<not> list_ex is_term s \<Longrightarrow> match_sentences s = []"
proof (rule match_sentences_none)
  assume a: "\<not> list_ex is_term s"
  have "\<forall>c\<in>set (dropWhile is_term s). \<not> is_term c"
    using a set_dropWhileD [of _ is_term s] by (auto simp: list_ex_iff)
  then show "dropWhile (\<lambda>c. \<not> is_term c) (dropWhile is_term s) = []"
    by (simp only: dropWhile_eq_Nil_conv)
qed

lemma match_sentences_whole:
  "s \<noteq> [] \<Longrightarrow> \<not> is_term (hd s) \<Longrightarrow> is_term (last s) \<Longrightarrow> concat (match_sentences s) = s"
proof (induction s rule: match_sentences.induct)
  case (1 s)
  have s1: "dropWhile is_term s = s" by (rule dropWhile_term_id [OF "1.prems"(1,2)])
  let ?body = "takeWhile (\<lambda>c. \<not> is_term c) s"
  let ?rest = "dropWhile (\<lambda>c. \<not> is_term c) s"
  let ?r2 = "dropWhile is_term ?rest"
  have "last s \<in> set s" using "1.prems"(1) by simp
  then have "\<not> (\<forall>c\<in>set s. \<not> is_term c)" using "1.prems"(3) by blast
  then have rest: "?rest \<noteq> []" by (simp add: dropWhile_eq_Nil_conv)
  have rest': "dropWhile (\<lambda>c. \<not> is_term c) (dropWhile is_term s) \<noteq> []"
    unfolding s1 by (rule rest)
  have "?body @ ?rest = s" by (rule takeWhile_dropWhile_id)
  moreover have "takeWhile is_term ?rest @ ?r2 = ?rest" by (rule takeWhile_dropWhile_id)
  ultimately have dec: "(?body @ takeWhile is_term ?rest) @ ?r2 = s" by simp
  have unf: "match_sentences s = (?body @ takeWhile is_term ?rest) # match_sentences ?r2"
    using match_sentences_more [OF rest'] unfolding s1 .
  show ?case
  proof (cases "?r2 = []")
    case True
    have "match_sentences [] = []"
      by (rule match_sentences_none) simp
    then have "concat (match_sentences s) = (?body @ takeWhile is_term ?rest) @ ?r2"
      unfolding unf True by simp
    then show ?thesis unfolding dec .
  next
    case False
    have h: "\<not> is_term (hd ?r2)" using False hd_dropWhile [of is_term ?rest] by blast
    have "last ((?body @ takeWhile is_term ?rest) @ ?r2) = last ?r2"
      using False by (rule last_appendR)
    then have l: "is_term (last ?r2)" unfolding dec using "1.prems"(3) by simp
    have r2: "dropWhile is_term (dropWhile (\<lambda>c. \<not> is_term c) (dropWhile is_term s)) = ?r2"
      unfolding s1 ..
    have "concat (match_sentences ?r2) = ?r2"
      using "1.IH" [OF refl refl rest', unfolded r2, OF False h l] .
    then have "concat (match_sentences s) = (?body @ takeWhile is_term ?rest) @ ?r2"
      unfolding unf by simp
    then show ?thesis unfolding dec .
  qed
qed

lemma sentences_of_whole: "whole_sentences s \<Longrightarrow> concat (sentences_of s) = s"
proof -
  assume w: "whole_sentences s"
  show ?thesis
  proof (cases "list_ex is_term s")
    case False
    show ?thesis unfolding sentences_of_def match_sentences_no_term [OF False] by simp
  next
    case True
    then have "s \<noteq> [] \<and> \<not> is_term (hd s) \<and> is_term (last s)"
      using w unfolding whole_sentences_def by blast
    then have c: "concat (match_sentences s) = s"
      using match_sentences_whole by blast
    show ?thesis
    proof (cases "match_sentences s = []")
      case True
      then have "s = []" using c by simp
      then show ?thesis unfolding sentences_of_def using True by simp
    next
      case False
      then show ?thesis unfolding sentences_of_def using c by simp
    qed
  qed
qed

lemma coarse_inv_close:
  assumes "coarse_inv m cks cur groups g" and "cur \<noteq> []" and "x \<noteq> []"
  shows "coarse_inv m (cks @ [trim cur]) x (groups @ [g]) [x]"
  using assms
  by (simp add: coarse_inv_def strip_ws_trim total_length_def within_limit_def)

lemma coarse_inv_extend:
  assumes "coarse_inv m cks cur groups g" and "cur \<noteq> [] \<longrightarrow> int (length (cur @ x)) \<le> m"
  shows "coarse_inv m cks (cur @ '' '' @ x) groups (g @ [x])"
proof -
  have t: "total_length g \<le> length cur" and cg: "cur \<noteq> [] \<longleftrightarrow> g \<noteq> []"
    using assms(1) by (simp_all add: coarse_inv_def)
  have s: "strip_ws (cur @ '' '' @ x) = strip_ws (concat (g @ [x]))"
    using assms(1) by (simp add: coarse_inv_def strip_ws_append strip_ws_space_Cons)
  have l: "within_limit m (g @ [x])"
  proof (cases "g = []")
    case True
    then show ?thesis by (simp add: within_limit_def)
  next
    case False
    then have "int (length (cur @ x)) \<le> m" using cg assms(2) by blast
    then show ?thesis using t by (simp add: within_limit_def total_length_snoc)
  qed
  have n: "total_length (g @ [x]) \<le> length (cur @ '' '' @ x)"
    using t by (simp add: total_length_snoc)
  show ?thesis
    using assms(1) s l n by (simp add: coarse_inv_def)
qed

lemma coarse_loop_inv:
  assumes "coarse_inv m cks cur groups g" and "\<forall>x\<in>set ss. x \<noteq> []"
  shows "\<exists>groups' g'.
           coarse_inv m (fst (splitScript_loop m ss (cks, cur)))
                        (snd (splitScript_loop m ss (cks, cur))) groups' g'
           \<and> concat groups' @ g' = concat groups @ g @ ss
           \<and> (g \<noteq> [] \<or> ss \<noteq> [] \<longrightarrow> g' \<noteq> [])"
  using assms
proof (induction ss arbitrary: cks cur groups g)
  case Nil
  then show ?case by auto
next
  case (Cons x ss)
  have x: "x \<noteq> []" and rest: "\<forall>y\<in>set ss. y \<noteq> []"
    using Cons.prems(2) by simp_all
  show ?case
  proof (cases "int (length (cur @ x)) > m \<and> cur \<noteq> []")
    case True
    have step: "splitScript_loop m (x # ss) (cks, cur)
        = splitScript_loop m ss (cks @ [trim cur], x)"
      using True by simp
    obtain groups' g' where
      i: "coarse_inv m (fst (splitScript_loop m ss (cks @ [trim cur], x)))
            (snd (splitScript_loop m ss (cks @ [trim cur], x))) groups' g'"
      and c: "concat groups' @ g' = concat (groups @ [g]) @ [x] @ ss"
      and n: "g' \<noteq> []"
      using Cons.IH [OF coarse_inv_close [OF Cons.prems(1) _ x] rest] True by blast
    show ?thesis unfolding step using i c n by (intro exI [of _ groups'] exI [of _ g']) simp
  next
    case False
    then have le: "cur \<noteq> [] \<longrightarrow> int (length (cur @ x)) \<le> m" by auto
    have step: "splitScript_loop m (x # ss) (cks, cur)
        = splitScript_loop m ss (cks, cur @ '' '' @ x)"
      using False by auto
    obtain groups' g' where
      i: "coarse_inv m (fst (splitScript_loop m ss (cks, cur @ '' '' @ x)))
            (snd (splitScript_loop m ss (cks, cur @ '' '' @ x))) groups' g'"
      and c: "concat groups' @ g' = concat groups @ (g @ [x]) @ ss"
      and n: "g' \<noteq> []"
      using Cons.IH [OF coarse_inv_extend [OF Cons.prems(1) le] rest] by blast
    show ?thesis unfolding step using i c n by (intro exI [of _ groups'] exI [of _ g']) simp
  qed
qed

lemma splitScript_sentences:
  "splitScript s m =
     (let (cks, cur) = splitScript_loop m (sentences_of s) ([], []);
          cks' = (if trim cur \<noteq> [] then cks @ [trim cur] else cks)
      in if cks' \<noteq> [] then cks' else [s])"
  by (simp add: splitScript_def sentences_of_def)

lemma strip_ws_group_nonempty:
  assumes "g \<noteq> []" and "\<forall>x\<in>set g. strip_ws x \<noteq> []"
  shows "strip_ws (concat g) \<noteq> []"
  using assms by (cases g) (simp_all add: strip_ws_append)

lemma coarse_groups:
  "\<exists>groups. concat groups = sentences_of s
     \<and> map strip_ws (splitScript s m) = map (\<lambda>h. strip_ws (concat h)) groups
     \<and> list_all (within_limit m) groups"
proof (cases "match_sentences s = []")
  case True
  have ss: "sentences_of s = [s]" using True by (simp add: sentences_of_def)
  have r: "splitScript s m = (if trim ('' '' @ s) \<noteq> [] then [trim ('' '' @ s)] else [s])"
    unfolding splitScript_sentences ss by simp
  have "map strip_ws (splitScript s m) = map (\<lambda>h. strip_ws (concat h)) [[s]]"
    unfolding r by (simp add: strip_ws_trim strip_ws_append strip_ws_space_Cons)
  moreover have "concat [[s]] = sentences_of s" using ss by simp
  moreover have "list_all (within_limit m) [[s]]" by (simp add: within_limit_def)
  ultimately show ?thesis by blast
next
  case False
  let ?ss = "sentences_of s"
  have ss: "?ss = match_sentences s" using False by (simp add: sentences_of_def)
  have st: "\<forall>x\<in>set ?ss. strip_ws x \<noteq> []"
    unfolding ss using match_sentences_have_term has_term_strip_ws by blast
  then have ne: "\<forall>x\<in>set ?ss. x \<noteq> []" by auto
  have i0: "coarse_inv m [] [] [] []" by (simp add: coarse_inv_def total_length_def)
  obtain groups g where
    i: "coarse_inv m (fst (splitScript_loop m ?ss ([], [])))
          (snd (splitScript_loop m ?ss ([], []))) groups g"
    and c: "concat groups @ g = ?ss"
    and g: "g \<noteq> []"
    using coarse_loop_inv [OF i0 ne] False ss by auto
  obtain cks cur where l: "splitScript_loop m ?ss ([], []) = (cks, cur)"
    by (cases "splitScript_loop m ?ss ([], [])")
  have "set g \<subseteq> set ?ss" using c by (metis set_append sup_ge2)
  then have "strip_ws (concat g) \<noteq> []"
    using strip_ws_group_nonempty [OF g] st by blast
  then have "strip_ws cur \<noteq> []" using i l by (simp add: coarse_inv_def)
  then have t: "trim cur \<noteq> []" using trim_empty_strip_ws by blast
  have r: "splitScript s m = cks @ [trim cur]"
    unfolding splitScript_sentences l using t by simp
  have "concat (groups @ [g]) = ?ss" using c by simp
  moreover have "map strip_ws (splitScript s m) = map (\<lambda>h. strip_ws (concat h)) (groups @ [g])"
    using i l by (simp add: r coarse_inv_def strip_ws_trim)
  moreover have "list_all (within_limit m) (groups @ [g])"
    using i l g by (simp add: coarse_inv_def)
  ultimately show ?thesis by blast
qed

lemma strip_ws_concat_concat:
  "concat (map (\<lambda>h. strip_ws (concat h)) groups) = strip_ws (concat (concat groups))"
  by (induction groups) (simp_all add: strip_ws_append)

lemma coarse_roundtrip:
  assumes "whole_sentences s"
  shows "strip_ws (concat (splitScript s m)) = strip_ws s"
proof -
  obtain groups where c: "concat groups = sentences_of s"
    and g: "map strip_ws (splitScript s m) = map (\<lambda>h. strip_ws (concat h)) groups"
    using coarse_groups [of s m] by blast
  have "strip_ws (concat (splitScript s m)) = concat (map strip_ws (splitScript s m))"
    by (rule strip_ws_concat)
  also have "\<dots> = concat (map (\<lambda>h. strip_ws (concat h)) groups)"
    by (simp only: g)
  also have "\<dots> = strip_ws (concat (concat groups))"
    by (rule strip_ws_concat_concat)
  also have "\<dots> = strip_ws s"
    unfolding c sentences_of_whole [OF assms] ..
  finally show ?thesis .
qed

text \<open>
  What the two planners do keep.  For every text and every \<open>maxChunkLength\<close>, the chunks of
  \<open>splitScript\<close> are, in index order and up to white space, the concatenations of
  consecutive groups of the sentences it iterates over, and the chunks of
  \<open>splitEnhancedScript\<close> are, up to white space and the terminators, the concatenations of
  consecutive groups of the non-blank pieces between terminators; a group is a single
  sentence or its sentences total at most the limit (\<open>maxChunkLength\<close>, respectively 500).
  Hence concatenating the chunks of \<open>splitScript\<close> reproduces a text made of whole sentences
  up to white space, and concatenating the chunks of \<open>splitEnhancedScript\<close> reproduces
  any text up to white space and terminators.
\<close>

lemma chunk_planner_groups:
  "(\<exists>groups. concat groups = sentences_of s
       \<and> map strip_ws (splitScript s m) = map (\<lambda>h. strip_ws (concat h)) groups
       \<and> list_all (within_limit m) groups)
   \<and> (\<exists>groups. concat groups = fine_sentences s
       \<and> map strip_ws_terms (splitEnhancedScript s) = map (\<lambda>h. strip_ws_terms (concat h)) groups
       \<and> list_all (within_limit 500) groups)
   \<and> (whole_sentences s \<longrightarrow> strip_ws (concat (splitScript s m)) = strip_ws s)
   \<and> strip_ws_terms (concat (splitEnhancedScript s)) = strip_ws_terms s"
  using coarse_groups [of s m] fine_groups [of s] coarse_roundtrip [of s m] fine_roundtrip [of s]
  by blast

lemma chunk_planner_groups_example:
  "whole_sentences ''aaa.bbb.ccc.''
   \<and> strip_ws (concat (splitScript ''aaa.bbb.ccc.'' 8)) = strip_ws ''aaa.bbb.ccc.''
   \<and> strip_ws_terms (concat (splitEnhancedScript ''Hi! Yo?'')) = strip_ws_terms ''Hi! Yo?''"
proof -
  have w: "whole_sentences ''aaa.bbb.ccc.''"
    by (simp add: whole_sentences_def is_term_def)
  have 1: "strip_ws (concat (splitScript ''aaa.bbb.ccc.'' 8)) = strip_ws ''aaa.bbb.ccc.''"
    using chunk_planner_groups [of "''aaa.bbb.ccc.''" 8] w by blast
  have 2: "strip_ws_terms (concat (splitEnhancedScript ''Hi! Yo?'')) = strip_ws_terms ''Hi! Yo?''"
    using chunk_planner_groups [of "''Hi! Yo?''" 8] by blast
  from w 1 2 show ?thesis by blast
qed

text \<open>
  C1.  The claim: for every text and every limit the chunks of both planners, joined in
  index order, give the text back up to white space, and no chunk is longer than the limit
  unless a single sentence is.  The code, at three short texts.  \<open>splitEnhancedScript\<close>
  splits \<open>Hi! Yo?\<close> at the terminators, drops them and joins the two pieces with a period
  and a space: its one chunk is \<open>Hi.  Yo\<close>, which differs from the text even after all
  white space is deleted, while \<open>splitScript\<close> keeps both marks of the same text.
  \<open>splitScript\<close> loses the tail of \<open>Hello. World\<close>, which no terminator closes.  And with
  the limit 8 it cuts \<open>aaa.bbb.ccc.\<close>, whose sentences have 4 units each, into a chunk of
  4 units and one of 9: the test that closes a chunk does not count the space it joins
  the sentences with.
\<close>

theorem chunk_planner_failing_inputs:
  "splitEnhancedScript ''Hi! Yo?'' = [''Hi.  Yo'']
   \<and> strip_ws (concat (splitEnhancedScript ''Hi! Yo?'')) = ''Hi.Yo''
   \<and> strip_ws ''Hi! Yo?'' = ''Hi!Yo?''
   \<and> splitScript ''Hi! Yo?'' 4000 = [''Hi!  Yo?'']
   \<and> splitScript ''Hello. World'' 4000 = [''Hello.'']
   \<and> strip_ws (concat (splitScript ''Hello. World'' 4000)) = ''Hello.''
   \<and> strip_ws ''Hello. World'' = ''Hello.World''
   \<and> sentences_of ''aaa.bbb.ccc.'' = [''aaa.'', ''bbb.'', ''ccc.'']
   \<and> splitScript ''aaa.bbb.ccc.'' 8 = [''aaa.'', ''bbb. ccc.'']
   \<and> map length (splitScript ''aaa.bbb.ccc.'' 8) = [4, 9]"
  by (simp add: splitEnhancedScript_def split_terms.simps splitScript_def sentences_of_def
      match_sentences.simps is_term_def is_space_def trim_def strip_ws_def)

subsection \<open>The pauses inside \<open>generateWithElevenLabs\<close>\<close>

text \<open>
  The chunks that \<open>generateWithElevenLabs\<close> synthesises come out of
  \<open>splitEnhancedScript\<close>, which removes every terminator of its input: none of them
  contains an exclamation mark, so every pause of that path is the 800 ms one.
\<close>

lemma starts_with_char: "starts_with s [c] \<longleftrightarrow> (s \<noteq> [] \<and> hd s = c)"
  by (cases s) simp_all

lemma str_includes_char: "str_includes s [c] \<longleftrightarrow> c \<in> set s"
  by (induction s) (simp_all add: starts_with_char, blast)

lemma set_trim: "set (trim x) \<subseteq> set x"
proof
  fix c assume "c \<in> set (trim x)"
  then have "c \<in> set (dropWhile is_space (rev (dropWhile is_space x)))"
    by (simp add: trim_def)
  then have "c \<in> set (rev (dropWhile is_space x))" by (rule set_dropWhileD)
  then have "c \<in> set (dropWhile is_space x)" by simp
  then show "c \<in> set x" by (rule set_dropWhileD)
qed

lemma takeWhile_not_term: "c \<in> set (takeWhile (\<lambda>c. \<not> is_term c) s) \<Longrightarrow> \<not> is_term c"
  by (drule set_takeWhileD) simp

lemma split_terms_no_term: "x \<in> set (split_terms s) \<Longrightarrow> c \<in> set x \<Longrightarrow> \<not> is_term c"
proof (induction s rule: split_terms.induct)
  case (1 s)
  let ?rest = "dropWhile (\<lambda>c. \<not> is_term c) s"
  show ?case
  proof (cases "?rest = []")
    case True
    then have "split_terms s = [takeWhile (\<lambda>c. \<not> is_term c) s]"
      by (subst split_terms.simps) (simp only: Let_def simp_thms if_True)
    then have "x = takeWhile (\<lambda>c. \<not> is_term c) s" using "1.prems"(1) by simp
    then show ?thesis using "1.prems"(2) takeWhile_not_term by blast
  next
    case False
    then have "split_terms s = takeWhile (\<lambda>c. \<not> is_term c) s # split_terms (dropWhile is_term ?rest)"
      by (subst split_terms.simps) (simp only: Let_def if_False)
    then have "x = takeWhile (\<lambda>c. \<not> is_term c) s \<or> x \<in> set (split_terms (dropWhile is_term ?rest))"
      using "1.prems"(1) by simp
    then show ?thesis
    proof
      assume "x = takeWhile (\<lambda>c. \<not> is_term c) s"
      then show ?thesis using "1.prems"(2) takeWhile_not_term by blast
    next
      assume "x \<in> set (split_terms (dropWhile is_term ?rest))"
      then show ?thesis using "1.IH" [OF refl False _ "1.prems"(2)] by blast
    qed
  qed
qed

lemma fine_loop_no_exclamation:
  assumes "\<forall>x\<in>set ss. CHR ''!'' \<notin> set x" and "\<forall>x\<in>set cks. CHR ''!'' \<notin> set x"
    and "CHR ''!'' \<notin> set cur"
  shows "(\<forall>x\<in>set (fst (splitEnhancedScript_loop ss (cks, cur))). CHR ''!'' \<notin> set x)
       \<and> CHR ''!'' \<notin> set (snd (splitEnhancedScript_loop ss (cks, cur)))"
  using assms
proof (induction ss arbitrary: cks cur)
  case Nil
  then show ?case by simp
next
  case (Cons x ss)
  have x: "CHR ''!'' \<notin> set x" and rest: "\<forall>y\<in>set ss. CHR ''!'' \<notin> set y"
    using Cons.prems(1) by simp_all
  have t: "\<forall>y\<in>set (cks @ [trim cur]). CHR ''!'' \<notin> set y"
    using Cons.prems(2,3) set_trim by fastforce
  have j: "CHR ''!'' \<notin> set (cur @ (if cur \<noteq> [] then ''. '' else []) @ x)"
    using Cons.prems(3) x by simp
  consider (skip) "trim x = []"
    | (close) "trim x \<noteq> []" "length cur + length x > 500" "cur \<noteq> []"
    | (first) "trim x \<noteq> []" "length cur + length x > 500" "cur = []"
    | (extend) "trim x \<noteq> []" "\<not> length cur + length x > 500"
    by blast
  then show ?case
  proof cases
    case skip
    then have "splitEnhancedScript_loop (x # ss) (cks, cur) = splitEnhancedScript_loop ss (cks, cur)"
      by simp
    then show ?thesis using Cons.IH [OF rest Cons.prems(2,3)] by simp
  next
    case close
    then have "splitEnhancedScript_loop (x # ss) (cks, cur)
        = splitEnhancedScript_loop ss (cks @ [trim cur], x)"
      by simp
    then show ?thesis using Cons.IH [OF rest t x] by simp
  next
    case first
    then have "splitEnhancedScript_loop (x # ss) (cks, cur) = splitEnhancedScript_loop ss (cks, x)"
      by simp
    then show ?thesis using Cons.IH [OF rest Cons.prems(2) x] by simp
  next
    case extend
    then have "splitEnhancedScript_loop (x # ss) (cks, cur)
        = splitEnhancedScript_loop ss (cks, cur @ (if cur \<noteq> [] then ''. '' else []) @ x)"
      by simp
    then show ?thesis using Cons.IH [OF rest Cons.prems(2) j] by simp
  qed
qed

lemma splitEnhancedScript_no_exclamation:
  assumes "c \<in> set (splitEnhancedScript s)"
  shows "\<not> str_includes c ''!''"
proof -
  have "is_term CHR ''!''" by (simp add: is_term_def)
  then have ss: "\<forall>x\<in>set (split_terms s). CHR ''!'' \<notin> set x"
    using split_terms_no_term by blast
  obtain cks cur where l: "splitEnhancedScript_loop (split_terms s) ([], []) = (cks, cur)"
    by (cases "splitEnhancedScript_loop (split_terms s) ([], [])")
  have i: "(\<forall>x\<in>set cks. CHR ''!'' \<notin> set x) \<and> CHR ''!'' \<notin> set cur"
    using fine_loop_no_exclamation [OF ss, of "[]" "[]"] l by simp
  then have t: "CHR ''!'' \<notin> set (trim cur)" using set_trim by blast
  have "c \<in> set cks \<or> c = trim cur"
    using assms by (auto simp: splitEnhancedScript_def l split: if_splits)
  then have "CHR ''!'' \<notin> set c" using i t by blast
  then show ?thesis by (simp add: str_includes_char)
qed

lemma pause_in_pipeline:
  assumes "c \<in> set (enhancedChunks_of env script)"
  shows "length (generateNaturalPause c) = 70560"
proof -
  have "\<not> str_includes c ''!''"
    using assms splitEnhancedScript_no_exclamation by (simp add: enhancedChunks_of_def)
  then show ?thesis by (simp add: generateNaturalPause_def Let_def)
qed

subsection \<open>Both paths on a script of three long sentences\<close>

text \<open>
  The two planners and the two provider paths are run on \<open>demo_script\<close>: three sentences
  of 1500 letters, the first closed by an exclamation mark, the other two by a period.
\<close>

lemma demo_sentence_facts:
  "length (demo_sentence c) = 1500" "set (demo_sentence c) = {c}" "demo_sentence c \<noteq> []"
  "hd (demo_sentence c) = c" "last (demo_sentence c) = c"
  by (simp_all add: demo_sentence_def)

lemma split_terms_step:
  assumes "\<forall>c\<in>set xs. \<not> is_term c" and "is_term t"
  shows "split_terms (xs @ t # ys) = xs # split_terms (dropWhile is_term ys)"
proof -
  have d: "dropWhile (\<lambda>c. \<not> is_term c) (xs @ t # ys) = t # ys"
    using assms by (simp add: dropWhile_append2)
  have k: "takeWhile (\<lambda>c. \<not> is_term c) (xs @ t # ys) = xs"
    using assms by (simp add: takeWhile_append2)
  have "split_terms (xs @ t # ys) = takeWhile (\<lambda>c. \<not> is_term c) (xs @ t # ys)
      # split_terms (dropWhile is_term (dropWhile (\<lambda>c. \<not> is_term c) (xs @ t # ys)))"
    by (rule split_terms_more) (simp add: d)
  then show ?thesis unfolding d k using assms(2) by simp
qed

lemma split_terms_Nil: "split_terms [] = [[]]"
  by (rule split_terms_last) simp

lemma match_sentences_step:
  assumes "xs \<noteq> []" and "\<forall>c\<in>set xs. \<not> is_term c" and "is_term t"
    and "ys = [] \<or> \<not> is_term (hd ys)"
  shows "match_sentences (xs @ t # ys) = (xs @ [t]) # match_sentences ys"
proof -
  have "\<not> is_term (hd xs)" using assms(1,2) by simp
  then have s1: "dropWhile is_term (xs @ t # ys) = xs @ t # ys"
    using assms(1) by (cases xs) simp_all
  have d: "dropWhile (\<lambda>c. \<not> is_term c) (xs @ t # ys) = t # ys"
    using assms by (simp add: dropWhile_append2)
  have k: "takeWhile (\<lambda>c. \<not> is_term c) (xs @ t # ys) = xs"
    using assms by (simp add: takeWhile_append2)
  have tk: "takeWhile is_term (t # ys) = [t]"
    using assms(3,4) by (cases ys) auto
  have dr: "dropWhile is_term (t # ys) = ys"
    using assms(3,4) by (cases ys) auto
  have "match_sentences (xs @ t # ys) =
     (takeWhile (\<lambda>c. \<not> is_term c) (dropWhile is_term (xs @ t # ys))
        @ takeWhile is_term (dropWhile (\<lambda>c. \<not> is_term c) (dropWhile is_term (xs @ t # ys))))
     # match_sentences (dropWhile is_term (dropWhile (\<lambda>c. \<not> is_term c) (dropWhile is_term (xs @ t # ys))))"
    by (rule match_sentences_more) (simp add: s1 d)
  then show ?thesis unfolding s1 d k tk dr .
qed

lemma match_sentences_Nil: "match_sentences [] = []"
  by (rule match_sentences_none) simp

lemma trim_id: "x \<noteq> [] \<Longrightarrow> \<not> is_space (hd x) \<Longrightarrow> \<not> is_space (last x) \<Longrightarrow> trim x = x"
proof -
  assume a: "x \<noteq> []" "\<not> is_space (hd x)" "\<not> is_space (last x)"
  have 1: "dropWhile is_space x = x" using a(1,2) by (cases x) simp_all
  have "x = butlast x @ [last x]" using a(1) by simp
  then have "rev x = rev (butlast x @ [last x])" by (rule arg_cong)
  then have r: "rev x = last x # rev (butlast x)" by simp
  have 2: "dropWhile is_space (rev x) = rev x" unfolding r using a(3) by simp
  show ?thesis by (simp add: trim_def 1 2)
qed

lemma trim_space_Cons: "trim (CHR '' '' # x) = trim x"
  by (simp add: trim_def is_space_def)

lemma letters:
  "\<not> is_term CHR ''a''" "\<not> is_term CHR ''b''" "\<not> is_term CHR ''c''"
  "\<not> is_space CHR ''a''" "\<not> is_space CHR ''b''" "\<not> is_space CHR ''c''"
  "is_term CHR ''!''" "is_term CHR ''.''" "\<not> is_space CHR ''.''"
  by (simp_all add: is_term_def is_space_def)

lemma demo_split_terms:
  "split_terms demo_script = [demo_sentence CHR ''a'', demo_sentence CHR ''b'', demo_sentence CHR ''c'', []]"
proof -
  have b: "dropWhile is_term (demo_sentence CHR ''b'' @ CHR ''.'' # demo_sentence CHR ''c'' @ ''.'')
      = demo_sentence CHR ''b'' @ CHR ''.'' # demo_sentence CHR ''c'' @ ''.''"
    by (rule dropWhile_term_id) (simp_all add: demo_sentence_facts letters)
  have c: "dropWhile is_term (demo_sentence CHR ''c'' @ ''.'') = demo_sentence CHR ''c'' @ ''.''"
    by (rule dropWhile_term_id) (simp_all add: demo_sentence_facts letters)
  have "split_terms demo_script = demo_sentence CHR ''a''
     # split_terms (demo_sentence CHR ''b'' @ CHR ''.'' # demo_sentence CHR ''c'' @ ''.'')"
    unfolding demo_script_def using split_terms_step [of "demo_sentence CHR ''a''" "CHR ''!''"
        "demo_sentence CHR ''b'' @ CHR ''.'' # demo_sentence CHR ''c'' @ ''.''"]
    by (simp add: demo_sentence_facts letters b)
  also have "split_terms (demo_sentence CHR ''b'' @ CHR ''.'' # demo_sentence CHR ''c'' @ ''.'')
     = demo_sentence CHR ''b'' # split_terms (demo_sentence CHR ''c'' @ ''.'')"
    using split_terms_step [of "demo_sentence CHR ''b''" "CHR ''.''" "demo_sentence CHR ''c'' @ ''.''"]
    by (simp add: demo_sentence_facts letters c)
  also have "split_terms (demo_sentence CHR ''c'' @ ''.'') = demo_sentence CHR ''c'' # split_terms []"
    using split_terms_step [of "demo_sentence CHR ''c''" "CHR ''.''" "[]"]
    by (simp add: demo_sentence_facts letters)
  finally show ?thesis by (simp add: split_terms_Nil)
qed

lemma trim_demo_sentence: "trim (demo_sentence c) = (if is_space c then [] else demo_sentence c)"
proof (cases "is_space c")
  case True
  then show ?thesis by (simp add: trim_empty_iff demo_sentence_facts)
next
  case False
  then show ?thesis by (simp add: trim_id demo_sentence_facts)
qed

lemma trim_Nil: "trim [] = []"
  by (simp add: trim_def)

lemma demo_fine_chunks:
  "splitEnhancedScript demo_script = [demo_sentence CHR ''a'', demo_sentence CHR ''b'', demo_sentence CHR ''c'']"
  by (simp add: splitEnhancedScript_def demo_split_terms trim_demo_sentence letters demo_sentence_facts
      trim_Nil)

lemma demo_match_sentences:
  "match_sentences demo_script
     = [demo_sentence CHR ''a'' @ ''!'', demo_sentence CHR ''b'' @ ''.'', demo_sentence CHR ''c'' @ ''.'']"
proof -
  have b: "dropWhile is_term (demo_sentence CHR ''b'' @ CHR ''.'' # demo_sentence CHR ''c'' @ ''.'')
      = demo_sentence CHR ''b'' @ CHR ''.'' # demo_sentence CHR ''c'' @ ''.''"
    by (rule dropWhile_term_id) (simp_all add: demo_sentence_facts letters)
  have c: "dropWhile is_term (demo_sentence CHR ''c'' @ ''.'') = demo_sentence CHR ''c'' @ ''.''"
    by (rule dropWhile_term_id) (simp_all add: demo_sentence_facts letters)
  have "match_sentences demo_script = (demo_sentence CHR ''a'' @ ''!'')
     # match_sentences (demo_sentence CHR ''b'' @ CHR ''.'' # demo_sentence CHR ''c'' @ ''.'')"
    unfolding demo_script_def using match_sentences_step [of "demo_sentence CHR ''a''" "CHR ''!''"
        "demo_sentence CHR ''b'' @ CHR ''.'' # demo_sentence CHR ''c'' @ ''.''"]
    by (simp add: demo_sentence_facts letters b)
  also have "match_sentences (demo_sentence CHR ''b'' @ CHR ''.'' # demo_sentence CHR ''c'' @ ''.'')
     = (demo_sentence CHR ''b'' @ ''.'') # match_sentences (demo_sentence CHR ''c'' @ ''.'')"
    using match_sentences_step [of "demo_sentence CHR ''b''" "CHR ''.''" "demo_sentence CHR ''c'' @ ''.''"]
    by (simp add: demo_sentence_facts letters c)
  also have "match_sentences (demo_sentence CHR ''c'' @ ''.'') = (demo_sentence CHR ''c'' @ ''.'') # match_sentences []"
    using match_sentences_step [of "demo_sentence CHR ''c''" "CHR ''.''" "[]"]
    by (simp add: demo_sentence_facts letters)
  finally show ?thesis by (simp add: match_sentences_Nil)
qed

lemma demo_coarse_loop:
  "splitScript_loop 4000 [demo_sentence CHR ''a'' @ ''!'', demo_sentence CHR ''b'' @ ''.'', demo_sentence CHR ''c'' @ ''.''] ([], [])
     = ([trim ('' '' @ demo_sentence CHR ''a'' @ ''! '' @ demo_sentence CHR ''b'' @ ''.'')],
        demo_sentence CHR ''c'' @ ''.'')"
  by (simp add: demo_sentence_facts)

lemma demo_coarse_chunks:
  "splitScript demo_script 4000
     = [demo_sentence CHR ''a'' @ ''! '' @ demo_sentence CHR ''b'' @ ''.'', demo_sentence CHR ''c'' @ ''.'']"
proof -
  have t1: "trim ('' '' @ demo_sentence CHR ''a'' @ ''! '' @ demo_sentence CHR ''b'' @ ''.'')
     = demo_sentence CHR ''a'' @ ''! '' @ demo_sentence CHR ''b'' @ ''.''"
  proof -
    have "trim (demo_sentence CHR ''a'' @ ''! '' @ demo_sentence CHR ''b'' @ ''.'')
      = demo_sentence CHR ''a'' @ ''! '' @ demo_sentence CHR ''b'' @ ''.''"
      by (rule trim_id) (simp_all add: demo_sentence_facts letters)
    then show ?thesis using trim_space_Cons by simp
  qed
  have t2: "trim (demo_sentence CHR ''c'' @ ''.'') = demo_sentence CHR ''c'' @ ''.''"
    by (rule trim_id) (simp_all add: demo_sentence_facts letters)
  have n: "demo_sentence CHR ''c'' @ ''.'' \<noteq> []" by simp
  show ?thesis
    unfolding splitScript_def demo_match_sentences Let_def demo_coarse_loop
    using t1 t2 by (simp add: demo_sentence_facts)
qed

lemma demo_pause: "length (generateNaturalPause (demo_sentence c)) = (if c = CHR ''!'' then 132300 else 70560)"
  by (simp add: pause_length str_includes_char demo_sentence_facts)

lemma demo_enhancedChunks:
  "enhancedChunks_of demo_tts_el demo_script
     = [demo_sentence CHR ''a'', demo_sentence CHR ''b'', demo_sentence CHR ''c'']"
  by (simp add: enhancedChunks_of_def demo_tts_el_def demo_tts_def demo_fine_chunks)

lemma demo_elevenlabs_loop:
  "elevenlabs_loop demo_tts_el
      [demo_sentence CHR ''a'', demo_sentence CHR ''b'', demo_sentence CHR ''c''] 0 []
     = Inr [[0], generateNaturalPause (demo_sentence CHR ''a''), [1],
            generateNaturalPause (demo_sentence CHR ''b''), [2]]"
  by (simp add: elevenlabs_loop.simps demo_tts_el_def demo_tts_def)

lemma demo_el_run:
  "generateAudio demo_tts_el demo_script demo_options_el =
     (\<lparr> success = True, format = ''mp3'', size' = Some 141123, provider' = ''elevenlabs'',
        voice' = Some ''adam'', enhancedAudio = Some True, error = None,
        metadata = \<lparr> chunks = Some 2, audioQuality = ''premium'', realistic = Some True,
          voiceModulation = Some True, fallbackUsed = Some False,
          originalProvider = Some ''elevenlabs'' \<rparr> \<rparr>,
      Some ([0] @ generateNaturalPause (demo_sentence CHR ''a'') @ [1]
            @ generateNaturalPause (demo_sentence CHR ''b'') @ [2]))"
proof -
  have e: "enhanceScriptForRealism demo_tts_el = (\<lambda>s. s)" "elevenlabs demo_tts_el"
    "\<not> ffmpeg demo_tts_el"
    by (simp_all add: demo_tts_el_def demo_tts_def)
  show ?thesis
    by (simp add: generateAudio_def demo_options_el_def demo_options_def demo_coarse_chunks e
      getProviderFallbackOrder_def availableProviders_def get_or_def isProviderAvailable_def
      generateAudio_config_def or_default_def mapVoiceForProvider_def voiceMapping_def
      generateWithProvider_def generateWithElevenLabs_def demo_fine_chunks demo_elevenlabs_loop
      enhanceAudioForRealism_def demo_pause Let_def)
qed

lemma demo_azure_run:
  "generateAudio demo_tts demo_script demo_options =
     (\<lparr> success = True, format = ''mp3'', size' = Some 6, provider' = ''azure'',
        voice' = Some ''en-US-DavisNeural'', enhancedAudio = Some True, error = None,
        metadata = \<lparr> chunks = Some 2, audioQuality = ''premium'', realistic = Some True,
          voiceModulation = Some True, fallbackUsed = Some False,
          originalProvider = Some ''azure'' \<rparr> \<rparr>, Some [1, 2, 3, 1, 2, 3])"
  by (simp add: generateAudio_def demo_tts_def demo_options_def demo_coarse_chunks
      getProviderFallbackOrder_def availableProviders_def get_or_def isProviderAvailable_def
      truthy_def generateAudio_config_def or_default_def mapVoiceForProvider_def voiceMapping_def
      generateWithProvider_def generateWithAzure_def enhanceAudioForRealism_def Let_def)

text \<open>
  C3.  The claim: the final audio is the audio of the chunks in index order with one
  silence between consecutive chunks and none after the last, and the silence after a
  chunk that ends in an exclamation mark is strictly longer than the silence after a chunk
  that ends in a period.  The code, at \<open>demo_script\<close>.  With ElevenLabs the three
  sentences are the three chunks, synthesised in order and joined with two silences and
  none after the last; but the chunks have lost their terminators, and the silence after
  the sentence that ends in an exclamation mark has the same 70560 bytes (800 ms) as the
  silence after the sentence that ends in a period.  With Azure, the default provider, the
  same script is cut into two chunks, and the file is the audio of the first followed at
  once by the audio of the second, with no silence between them.
\<close>

theorem reassembly_failing_input:
  "enhancedChunks_of demo_tts_el demo_script
     = [demo_sentence CHR ''a'', demo_sentence CHR ''b'', demo_sentence CHR ''c'']
   \<and> generateAudio demo_tts_el demo_script demo_options_el =
     (\<lparr> success = True, format = ''mp3'', size' = Some 141123, provider' = ''elevenlabs'',
        voice' = Some ''adam'', enhancedAudio = Some True, error = None,
        metadata = \<lparr> chunks = Some 2, audioQuality = ''premium'', realistic = Some True,
          voiceModulation = Some True, fallbackUsed = Some False,
          originalProvider = Some ''elevenlabs'' \<rparr> \<rparr>,
      Some ([0] @ generateNaturalPause (demo_sentence CHR ''a'') @ [1]
            @ generateNaturalPause (demo_sentence CHR ''b'') @ [2]))
   \<and> length (generateNaturalPause (demo_sentence CHR ''a'')) = 70560
   \<and> length (generateNaturalPause (demo_sentence CHR ''b'')) = 70560
   \<and> splitScript demo_script 4000
     = [demo_sentence CHR ''a'' @ ''! '' @ demo_sentence CHR ''b'' @ ''.'',
        demo_sentence CHR ''c'' @ ''.'']
   \<and> generateAudio demo_tts demo_script demo_options =
     (\<lparr> success = True, format = ''mp3'', size' = Some 6, provider' = ''azure'',
        voice' = Some ''en-US-DavisNeural'', enhancedAudio = Some True, error = None,
        metadata = \<lparr> chunks = Some 2, audioQuality = ''premium'', realistic = Some True,
          voiceModulation = Some True, fallbackUsed = Some False,
          originalProvider = Some ''azure'' \<rparr> \<rparr>, Some [1, 2, 3, 1, 2, 3])"
proof -
  note demo_enhancedChunks
  moreover note demo_el_run
  moreover have "length (generateNaturalPause (demo_sentence CHR ''a'')) = 70560"
    by (simp add: demo_pause)
  moreover have "length (generateNaturalPause (demo_sentence CHR ''b'')) = 70560"
    by (simp add: demo_pause)
  moreover note demo_coarse_chunks
  moreover note demo_azure_run
  ultimately show ?thesis by blast
qed

end
